theory Spec2Isabelle
  imports Main "HOL-Library.Word"
begin

section \<open>The external scanner of the KDL grammar (scanner.c)\<close>

subsection \<open>Code points, token kinds and the cursor\<close>

text \<open>
  The lookahead of the lexer is an \<open>int32_t\<close>; the scanner only compares it with
  constants, so a 32-bit word carries it. The counters \<open>hashes\<close> and
  \<open>nesting_depth\<close> are \<open>unsigned\<close>: 32-bit words whose \<open>+\<close> and \<open>-\<close> wrap.
\<close>

type_synonym code_point = "32 word"

abbreviation NUL :: code_point where "NUL \<equiv> 0"
abbreviation FF :: code_point where "FF \<equiv> 0x0C"
abbreviation LF :: code_point where "LF \<equiv> 0x0A"
abbreviation CR :: code_point where "CR \<equiv> 0x0D"
abbreviation QUOTE :: code_point where "QUOTE \<equiv> 0x22"
abbreviation HASH :: code_point where "HASH \<equiv> 0x23"
abbreviation STAR :: code_point where "STAR \<equiv> 0x2A"
abbreviation SLASH :: code_point where "SLASH \<equiv> 0x2F"
abbreviation NEL :: code_point where "NEL \<equiv> 0x85"
abbreviation LS :: code_point where "LS \<equiv> 0x2028"
abbreviation PS :: code_point where "PS \<equiv> 0x2029"

text \<open>
  \<^verbatim>\<open>enum { _EOF, MULTI_LINE_COMMENT, RAW_STRING };\<close> The kind \<^verbatim>\<open>_EOF\<close> is written
  \<open>EOF\<close> here.
\<close>

datatype token_kind = EOF | MULTI_LINE_COMMENT | RAW_STRING

text \<open>
  Modelled from the spec: the cursor (\<open>TSLexer\<close> of \<open>tree_sitter/parser.h\<close>, which is
  not part of the repository), that is the record \<open>lexer\<close> and its operations
  \<open>lookahead\<close>, \<open>eof\<close> and \<open>advance\<close>. The cursor exposes the current lookahead code
  point or the end-of-input sentinel 0, an operation that advances to the next code
  point, an end-of-file query, and the result kind. Here the cursor is the list of code
  points not yet consumed; \<open>advances\<close> counts the calls of the advance operation, and at
  the end of the input an advance leaves the cursor at the end. The scanner's own
  \<open>advance\<close> calls the operation with \<open>skip = false\<close>, which does not change what is
  consumed.
\<close>

record lexer =
  rest :: "code_point list"
  advances :: nat
  result_symbol :: token_kind

definition lookahead :: "lexer \<Rightarrow> code_point" where
  "lookahead lx = (case rest lx of [] \<Rightarrow> NUL | c # _ \<Rightarrow> c)"

definition eof :: "lexer \<Rightarrow> bool" where
  "eof lx = (rest lx = [])"

definition advance :: "lexer \<Rightarrow> lexer" where
  "advance lx =
     lx\<lparr>rest := (case rest lx of [] \<Rightarrow> [] | _ # cs \<Rightarrow> cs), advances := Suc (advances lx)\<rparr>"

subsection \<open>Newlines\<close>

definition is_newline :: "code_point \<Rightarrow> bool" where
  "is_newline c =
     (if c = CR then True
      else if c = LF then True
      else if c = NEL then True
      else if c = FF then True
      else if c = LS then True
      else if c = PS then True
      else False)"

definition consume_newline :: "lexer \<Rightarrow> lexer" where
  "consume_newline lx =
     (if lookahead lx = CR then
        (let lx1 = advance lx in
         if lookahead lx1 = LF then advance lx1 else lx1)
      else advance lx)"

subsection \<open>Multi-line comments\<close>

text \<open>
  One iteration of the \<open>for (;;)\<close> loop of \<open>scan_multiline_comment\<close>: it either returns
  (\<open>Inl\<close>) or goes round again with the new cursor, \<open>after_star\<close> and \<open>nesting_depth\<close>
  (\<open>Inr\<close>).
\<close>

definition scan_multiline_comment_iter ::
  "lexer \<Rightarrow> bool \<Rightarrow> 32 word \<Rightarrow> (bool \<times> lexer) + (lexer \<times> bool \<times> 32 word)" where
  "scan_multiline_comment_iter lx after_star nesting_depth =
     (if lookahead lx = NUL then Inl (False, lx)
      else if lookahead lx = STAR then Inr (advance lx, True, nesting_depth)
      else if lookahead lx = SLASH then
        (if after_star then
           (let lx1 = advance lx; d = nesting_depth - 1 in
            if d = 0 then Inl (True, lx1\<lparr>result_symbol := MULTI_LINE_COMMENT\<rparr>)
            else Inr (lx1, False, d))
         else
           (let lx1 = advance lx in
            if lookahead lx1 = STAR then Inr (advance lx1, False, nesting_depth + 1)
            else Inr (lx1, False, nesting_depth)))
      else Inr (advance lx, False, nesting_depth))"

lemma scan_multiline_comment_iter_shrinks:
  "scan_multiline_comment_iter lx a d = Inr (lx', a', d') \<Longrightarrow>
     length (rest lx') < length (rest lx)"
  by (cases "rest lx")
     (auto simp: scan_multiline_comment_iter_def lookahead_def advance_def Let_def
           split: if_splits list.splits)

function scan_multiline_comment_loop :: "lexer \<Rightarrow> bool \<Rightarrow> 32 word \<Rightarrow> bool \<times> lexer" where
  "scan_multiline_comment_loop lx after_star nesting_depth =
     (case scan_multiline_comment_iter lx after_star nesting_depth of
        Inl r \<Rightarrow> r
      | Inr (lx', after_star', nesting_depth') \<Rightarrow>
          scan_multiline_comment_loop lx' after_star' nesting_depth')"
  by pat_completeness auto
termination
  by (relation "measure (\<lambda>(lx, a, d). length (rest lx))")
     (auto dest: scan_multiline_comment_iter_shrinks)

definition scan_multiline_comment :: "lexer \<Rightarrow> bool \<times> lexer" where
  "scan_multiline_comment lx =
     (if lookahead lx \<noteq> SLASH then (False, lx)
      else
        (let lx1 = advance lx in
         if lookahead lx1 \<noteq> STAR then (False, lx1)
         else scan_multiline_comment_loop (advance lx1) False 1))"

subsection \<open>Raw strings\<close>

text \<open>\<open>try_consume_hashes\<close>: the \<open>for\<close> loop from the counter \<open>i\<close> on.\<close>

function try_consume_hashes_from :: "lexer \<Rightarrow> 32 word \<Rightarrow> 32 word \<Rightarrow> bool \<times> lexer" where
  "try_consume_hashes_from lx hashes i =
     (if i < hashes then
        (if lookahead lx \<noteq> HASH then (False, lx)
         else try_consume_hashes_from (advance lx) hashes (i + 1))
      else (True, lx))"
  by pat_completeness auto
termination
  by (relation "measure (\<lambda>(lx, h, i). length (rest lx))")
     (auto simp: lookahead_def advance_def split: list.splits)

definition try_consume_hashes :: "lexer \<Rightarrow> 32 word \<Rightarrow> bool \<times> lexer" where
  "try_consume_hashes lx hashes = try_consume_hashes_from lx hashes 0"

lemma try_consume_hashes_from_length:
  "length (rest (snd (try_consume_hashes_from lx h i))) \<le> length (rest lx)"
proof (induction lx h i rule: try_consume_hashes_from.induct)
  case (1 lx hashes i)
  show ?case
  proof (cases "i < hashes \<and> lookahead lx = HASH")
    case True
    then have "length (rest (snd (try_consume_hashes_from (advance lx) hashes (i + 1))))
                 \<le> length (rest (advance lx))"
      using "1.IH" by simp
    also have "\<dots> \<le> length (rest lx)"
      by (simp add: advance_def split: list.splits)
    finally show ?thesis
      using True by (subst try_consume_hashes_from.simps) simp
  next
    case False
    then show ?thesis
      by (subst try_consume_hashes_from.simps) auto
  qed
qed

lemma try_consume_hashes_length:
  "try_consume_hashes lx h = (ok, lx') \<Longrightarrow> length (rest lx') \<le> length (rest lx)"
  using try_consume_hashes_from_length [of lx h 0] by (simp add: try_consume_hashes_def)

text \<open>One iteration of the loop of \<open>scan_raw_string_single_line\<close>.\<close>

definition scan_raw_string_single_line_iter ::
  "lexer \<Rightarrow> 32 word \<Rightarrow> (bool \<times> lexer) + lexer" where
  "scan_raw_string_single_line_iter lx hashes =
     (if eof lx \<or> lookahead lx = NUL then Inl (False, lx)
      else if is_newline (lookahead lx) then Inl (False, lx)
      else if lookahead lx \<noteq> QUOTE then Inr (advance lx)
      else
        (case try_consume_hashes (advance lx) hashes of
           (True, lx1) \<Rightarrow> Inl (True, lx1\<lparr>result_symbol := RAW_STRING\<rparr>)
         | (False, lx1) \<Rightarrow> Inr lx1))"

lemma advance_shrinks:
  "rest lx \<noteq> [] \<Longrightarrow> length (rest (advance lx)) < length (rest lx)"
  by (cases "rest lx") (simp_all add: advance_def)

lemma scan_raw_string_single_line_iter_shrinks:
  assumes "scan_raw_string_single_line_iter lx h = Inr lx'"
  shows "length (rest lx') < length (rest lx)"
proof -
  have ne: "rest lx \<noteq> []"
    using assms by (auto simp: scan_raw_string_single_line_iter_def eof_def)
  show ?thesis
  proof (cases "lookahead lx = QUOTE")
    case False
    then have "lx' = advance lx"
      using assms by (auto simp: scan_raw_string_single_line_iter_def split: if_splits)
    then show ?thesis using ne by (simp add: advance_shrinks)
  next
    case True
    then obtain ok where "try_consume_hashes (advance lx) h = (ok, lx')"
      using assms
      by (auto simp: scan_raw_string_single_line_iter_def split: if_splits prod.splits bool.splits)
    then have "length (rest lx') \<le> length (rest (advance lx))"
      by (rule try_consume_hashes_length)
    then show ?thesis using advance_shrinks [OF ne] by simp
  qed
qed

function scan_raw_string_single_line :: "lexer \<Rightarrow> 32 word \<Rightarrow> bool \<times> lexer" where
  "scan_raw_string_single_line lx hashes =
     (case scan_raw_string_single_line_iter lx hashes of
        Inl r \<Rightarrow> r
      | Inr lx' \<Rightarrow> scan_raw_string_single_line lx' hashes)"
  by pat_completeness auto
termination
  by (relation "measure (\<lambda>(lx, h). length (rest lx))")
     (auto dest: scan_raw_string_single_line_iter_shrinks)

text \<open>One iteration of the loop of \<open>scan_raw_string_multi_line\<close>.\<close>

definition scan_raw_string_multi_line_iter ::
  "lexer \<Rightarrow> 32 word \<Rightarrow> (bool \<times> lexer) + lexer" where
  "scan_raw_string_multi_line_iter lx hashes =
     (if eof lx \<or> lookahead lx = NUL then Inl (False, lx)
      else if lookahead lx \<noteq> QUOTE then
        (if is_newline (lookahead lx) then Inr (consume_newline lx) else Inr (advance lx))
      else
        (let lx1 = advance lx in
         if lookahead lx1 \<noteq> QUOTE then Inr lx1
         else
           (let lx2 = advance lx1 in
            if lookahead lx2 \<noteq> QUOTE then Inr lx2
            else
              (case try_consume_hashes (advance lx2) hashes of
                 (True, lx3) \<Rightarrow> Inl (True, lx3\<lparr>result_symbol := RAW_STRING\<rparr>)
               | (False, lx3) \<Rightarrow> Inr lx3))))"

lemma advance_length:
  "length (rest (advance lx)) \<le> length (rest lx)"
  by (cases "rest lx") (simp_all add: advance_def)

lemma consume_newline_shrinks:
  "rest lx \<noteq> [] \<Longrightarrow> length (rest (consume_newline lx)) < length (rest lx)"
  using advance_shrinks [of lx] advance_length [of "advance lx"]
  by (auto simp: consume_newline_def Let_def)

lemma scan_raw_string_multi_line_iter_shrinks:
  assumes "scan_raw_string_multi_line_iter lx h = Inr lx'"
  shows "length (rest lx') < length (rest lx)"
proof -
  have ne: "rest lx \<noteq> []"
    using assms by (auto simp: scan_raw_string_multi_line_iter_def eof_def)
  note a1 = advance_shrinks [OF ne]
  note a2 = advance_length [of "advance lx"]
  note a3 = advance_length [of "advance (advance lx)"]
  show ?thesis
  proof (cases "lookahead lx = QUOTE \<and> lookahead (advance lx) = QUOTE
                 \<and> lookahead (advance (advance lx)) = QUOTE")
    case False
    then have "lx' = consume_newline lx \<or> lx' = advance lx \<or> lx' = advance (advance lx)"
      using assms
      by (auto simp: scan_raw_string_multi_line_iter_def Let_def split: if_splits)
    then show ?thesis
      using consume_newline_shrinks [OF ne] a1 a2 by auto
  next
    case True
    then obtain ok where "try_consume_hashes (advance (advance (advance lx))) h = (ok, lx')"
      using assms
      by (auto simp: scan_raw_string_multi_line_iter_def Let_def
               split: if_splits prod.splits bool.splits)
    then have "length (rest lx') \<le> length (rest (advance (advance (advance lx))))"
      by (rule try_consume_hashes_length)
    then show ?thesis using a1 a2 a3 by simp
  qed
qed

function scan_raw_string_multi_line :: "lexer \<Rightarrow> 32 word \<Rightarrow> bool \<times> lexer" where
  "scan_raw_string_multi_line lx hashes =
     (case scan_raw_string_multi_line_iter lx hashes of
        Inl r \<Rightarrow> r
      | Inr lx' \<Rightarrow> scan_raw_string_multi_line lx' hashes)"
  by pat_completeness auto
termination
  by (relation "measure (\<lambda>(lx, h). length (rest lx))")
     (auto dest: scan_raw_string_multi_line_iter_shrinks)

text \<open>The \<open>while (lexer->lookahead == '#')\<close> loop of \<open>scan_raw_string\<close>.\<close>

function count_hashes :: "lexer \<Rightarrow> 32 word \<Rightarrow> 32 word \<times> lexer" where
  "count_hashes lx hashes =
     (if lookahead lx = HASH then count_hashes (advance lx) (hashes + 1)
      else (hashes, lx))"
  by pat_completeness auto
termination
  by (relation "measure (\<lambda>(lx, h). length (rest lx))")
     (auto simp: lookahead_def advance_def split: list.splits)

definition scan_raw_string :: "lexer \<Rightarrow> bool \<times> lexer" where
  "scan_raw_string lx =
     (if lookahead lx \<noteq> HASH then (False, lx)
      else
        (case count_hashes lx 0 of (hashes, lx1) \<Rightarrow>
           if lookahead lx1 \<noteq> QUOTE then (False, lx1)
           else
             (let lx2 = advance lx1 in
              if lookahead lx2 = QUOTE then
                (let lx3 = advance lx2 in
                 if lookahead lx3 \<noteq> QUOTE then
                   (case try_consume_hashes lx3 hashes of
                      (False, lx4) \<Rightarrow> (False, lx4)
                    | (True, lx4) \<Rightarrow> (True, lx4\<lparr>result_symbol := RAW_STRING\<rparr>))
                 else
                   (let lx4 = advance lx3 in
                    if \<not> is_newline (lookahead lx4) then (False, lx4)
                    else scan_raw_string_multi_line (consume_newline lx4) hashes))
              else scan_raw_string_single_line lx2 hashes)))"

subsection \<open>Entry point\<close>

text \<open>
  \<open>valid_symbols\<close> is the array of booleans indexed by the token kinds. The payload is
  not used.
\<close>

definition tree_sitter_kdl_external_scanner_scan ::
  "(token_kind \<Rightarrow> bool) \<Rightarrow> lexer \<Rightarrow> bool \<times> lexer" where
  "tree_sitter_kdl_external_scanner_scan valid_symbols lx =
     (if valid_symbols EOF \<and> lookahead lx = NUL then
        (True, advance (lx\<lparr>result_symbol := EOF\<rparr>))
      else if valid_symbols RAW_STRING \<and> lookahead lx = HASH then scan_raw_string lx
      else if valid_symbols MULTI_LINE_COMMENT \<and> lookahead lx = SLASH then
        scan_multiline_comment lx
      else (False, lx))"

abbreviation scan :: "(token_kind \<Rightarrow> bool) \<Rightarrow> lexer \<Rightarrow> bool \<times> lexer" where
  "scan \<equiv> tree_sitter_kdl_external_scanner_scan"

text \<open>
  The loops are unfolded one iteration at a time, by hand, so their recursion equations
  are taken out of the simplifier's set.
\<close>

declare scan_multiline_comment_loop.simps [simp del]
declare try_consume_hashes_from.simps [simp del]
declare scan_raw_string_single_line.simps [simp del]
declare scan_raw_string_multi_line.simps [simp del]
declare count_hashes.simps [simp del]

section \<open>Vocabulary of the properties\<close>

text \<open>
  \<open>forward lx lx'\<close>: the cursor \<open>lx'\<close> is reached from \<open>lx\<close> by advancing over code points
  of the input, one per advance, and never past the end.
\<close>

definition forward :: "lexer \<Rightarrow> lexer \<Rightarrow> bool" where
  "forward lx lx' =
     (advances lx \<le> advances lx' \<and> advances lx' - advances lx \<le> length (rest lx) \<and>
      rest lx' = drop (advances lx' - advances lx) (rest lx))"

text \<open>
  \<open>nul_cut ys la lb\<close>: the two cursors agree, except that \<open>la\<close> has a code point 0 and
  then \<open>ys\<close> where the input of \<open>lb\<close> ends.
\<close>

definition nul_cut :: "code_point list \<Rightarrow> lexer \<Rightarrow> lexer \<Rightarrow> bool" where
  "nul_cut ys la lb =
     (rest la = rest lb @ NUL # ys \<and> advances la = advances lb \<and>
      result_symbol la = result_symbol lb)"

text \<open>
  \<open>single_line_text cs\<close>: code points that a single-line body passes over one by one:
  no quote, no 0 and no newline.
\<close>

definition single_line_text :: "code_point list \<Rightarrow> bool" where
  "single_line_text cs = list_all (\<lambda>c. c \<noteq> QUOTE \<and> c \<noteq> NUL \<and> \<not> is_newline c) cs"

text \<open>
  \<open>no_close N B\<close>: no quote of \<open>B\<close> is followed by \<open>N\<close> hashes, that is, \<open>B\<close> holds no
  closing delimiter for the hash count \<open>N\<close>.
\<close>

fun no_close :: "nat \<Rightarrow> code_point list \<Rightarrow> bool" where
  "no_close N [] = True"
| "no_close N (c # cs) = ((c = QUOTE \<longrightarrow> take N cs \<noteq> replicate N HASH) \<and> no_close N cs)"

text \<open>
  Well-nested comment text: a \<open>piece\<close> is one code point of text or a block, that is
  \<open>/*\<close>, pieces, \<open>*/\<close>. \<open>flatten\<close> is its text, \<open>plain\<close> says that the code points of text
  are none of 0, \<open>*\<close> and \<open>/\<close>, and \<open>depth\<close> counts the nested pairs of delimiters.
\<close>

datatype piece = Text code_point | Block "piece list"

fun flatten :: "piece \<Rightarrow> code_point list" where
  "flatten (Text c) = [c]"
| "flatten (Block ps) = [SLASH, STAR] @ concat (map flatten ps) @ [STAR, SLASH]"


fun depth :: "piece \<Rightarrow> nat" where
  "depth (Text c) = 0"
| "depth (Block ps) = Suc (foldr max (map depth ps) 0)"

text \<open>
  \<open>well_nested ps f\<close>: the pieces \<open>ps\<close>, with the code point \<open>f\<close> after them, are the
  structure of their own text. No code point of text is 0; a \<open>/\<close> of text is not followed
  by \<open>*\<close> and a \<open>*\<close> of text is not followed by \<open>/\<close>, so that no code point of text is
  part of a delimiter. \<open>first_code_point ps f\<close> is the first code point of the text of
  \<open>ps\<close> followed by \<open>f\<close>. The pieces of a block are followed by the \<open>*\<close> of its \<open>*/\<close>.
\<close>

definition first_code_point :: "piece list \<Rightarrow> code_point \<Rightarrow> code_point" where
  "first_code_point ps f = (case ps of [] \<Rightarrow> f | Text c # _ \<Rightarrow> c | Block _ # _ \<Rightarrow> SLASH)"

fun well_nested :: "piece list \<Rightarrow> code_point \<Rightarrow> bool" where
  "well_nested [] f = True"
| "well_nested (Text c # ps) f =
     (c \<noteq> NUL \<and> (c = SLASH \<longrightarrow> first_code_point ps f \<noteq> STAR) \<and>
      (c = STAR \<longrightarrow> first_code_point ps f \<noteq> SLASH) \<and> well_nested ps f)"
| "well_nested (Block qs # ps) f = (well_nested qs STAR \<and> well_nested ps f)"



text \<open>
  \<open>multi_line_body N B\<close>: the body \<open>B\<close> of a multi-line raw string with \<open>N\<close> hashes has
  no 0 in it, does not end in a quote, and nowhere in it are three quotes followed by
  \<open>N\<close> hashes (\<open>no_triple_close\<close>).
\<close>

fun no_triple_close :: "nat \<Rightarrow> code_point list \<Rightarrow> bool" where
  "no_triple_close N [] = True"
| "no_triple_close N (c # cs) =
     (take (3 + N) (c # cs) \<noteq> QUOTE # QUOTE # QUOTE # replicate N HASH \<and> no_triple_close N cs)"

definition multi_line_body :: "nat \<Rightarrow> code_point list \<Rightarrow> bool" where
  "multi_line_body N B = (NUL \<notin> set B \<and> (B = [] \<or> last B \<noteq> QUOTE) \<and> no_triple_close N B)"

section \<open>Basic facts\<close>

lemma replicate_numeral_unfold:
  "replicate (numeral v) x = x # replicate (pred_numeral v) x"
  by (simp add: numeral_eq_Suc)

lemma unat_inc:
  fixes i h :: "32 word"
  assumes "i < h"
  shows "unat (i + 1) = Suc (unat i)"
proof -
  have "unat i < unat h"
    using assms by (simp add: word_less_nat_alt)
  moreover have "unat h < 2 ^ LENGTH(32)"
    by (rule unsigned_less)
  ultimately have "unat i + unat (1 :: 32 word) < 2 ^ LENGTH(32)"
    by simp
  then have "unat (i + 1) = unat i + unat (1 :: 32 word)"
    by (simp only: unat_add_lem)
  then show ?thesis by simp
qed

lemma unat_inc_bound:
  fixes d :: "32 word"
  assumes "unat d + 1 < 2 ^ 32"
  shows "unat (d + 1) = Suc (unat d)" and "d + 1 \<noteq> 0"
proof -
  have "unat d + unat (1 :: 32 word) < 2 ^ LENGTH(32)"
    using assms by simp
  then have "unat (d + 1) = unat d + unat (1 :: 32 word)"
    by (simp only: unat_add_lem)
  then show u: "unat (d + 1) = Suc (unat d)" by simp
  show "d + 1 \<noteq> 0"
  proof
    assume "d + 1 = 0"
    then have "unat (d + 1) = 0" by simp
    then show False using u by simp
  qed
qed

lemma lookahead_nonempty: "lookahead lx \<noteq> NUL \<Longrightarrow> rest lx \<noteq> []"
  by (auto simp: lookahead_def)

lemma rest_lookahead_advance:
  "lookahead lx = c \<Longrightarrow> c \<noteq> NUL \<Longrightarrow> rest lx = c # rest (advance lx)"
  by (cases "rest lx") (auto simp: lookahead_def advance_def)

lemma is_newline_iff:
  "is_newline c \<longleftrightarrow> c \<in> {0x0D, 0x0A, 0x85, 0x0C, 0x2028, 0x2029}"
  by (simp add: is_newline_def)

lemma is_newline_not_NUL: "is_newline c \<Longrightarrow> c \<noteq> NUL"
  by (auto simp: is_newline_def split: if_splits)

lemma is_newline_not_QUOTE: "is_newline c \<Longrightarrow> c \<noteq> QUOTE"
  by (auto simp: is_newline_def split: if_splits)

lemma scan_at_hash:
  "vs RAW_STRING \<Longrightarrow>
   scan vs \<lparr>rest = HASH # R, advances = n, result_symbol = k\<rparr>
     = scan_raw_string \<lparr>rest = HASH # R, advances = n, result_symbol = k\<rparr>"
  by (simp add: tree_sitter_kdl_external_scanner_scan_def lookahead_def)

lemma scan_at_slash:
  "vs MULTI_LINE_COMMENT \<Longrightarrow>
   scan vs \<lparr>rest = SLASH # R, advances = n, result_symbol = k\<rparr>
     = scan_multiline_comment \<lparr>rest = SLASH # R, advances = n, result_symbol = k\<rparr>"
  by (simp add: tree_sitter_kdl_external_scanner_scan_def lookahead_def)

section \<open>Newline predicate and newline consumer\<close>

lemma consume_newline_CRLF:
  "consume_newline \<lparr>rest = CR # LF # cs, advances = n, result_symbol = k\<rparr>
     = \<lparr>rest = cs, advances = n + 2, result_symbol = k\<rparr>"
  by (simp add: consume_newline_def lookahead_def advance_def)

lemma consume_newline_single:
  "is_newline c \<Longrightarrow> \<not> (c = CR \<and> take 1 cs = [LF]) \<Longrightarrow>
   consume_newline \<lparr>rest = c # cs, advances = n, result_symbol = k\<rparr>
     = \<lparr>rest = cs, advances = n + 1, result_symbol = k\<rparr>"
  by (cases cs) (auto simp: consume_newline_def lookahead_def advance_def)

lemma consume_newline_bounds:
  assumes "is_newline (lookahead lx)"
  shows "advances (consume_newline lx) - advances lx \<in> {1, 2} \<and>
         rest (consume_newline lx)
           = drop (advances (consume_newline lx) - advances lx) (rest lx) \<and>
         length (rest lx)
           = length (rest (consume_newline lx)) + (advances (consume_newline lx) - advances lx)"
proof (cases "rest lx")
  case Nil
  then show ?thesis using assms by (simp add: lookahead_def is_newline_def)
next
  case (Cons c cs)
  then show ?thesis
    by (cases cs) (auto simp: consume_newline_def lookahead_def advance_def Let_def)
qed

text \<open>
  Claim C6. The newline predicate holds exactly for CR, LF, NEL (U+0085), FF (U+000C),
  LS (U+2028) and PS (U+2029). The newline consumer takes CR followed by LF as one unit
  of two code points, and every other newline (a CR that no LF follows included) as one
  code point. Called at a newline, it advances once or twice, and the cursor moves by
  as many code points as it advances.
\<close>

theorem newline_classified_and_consumed:
  "(is_newline c \<longleftrightarrow> c \<in> {0x0D, 0x0A, 0x85, 0x0C, 0x2028, 0x2029}) \<and>
   consume_newline \<lparr>rest = CR # LF # cs, advances = n, result_symbol = k\<rparr>
     = \<lparr>rest = cs, advances = n + 2, result_symbol = k\<rparr> \<and>
   (is_newline c' \<and> \<not> (c' = CR \<and> take 1 cs' = [LF]) \<longrightarrow>
     consume_newline \<lparr>rest = c' # cs', advances = n, result_symbol = k\<rparr>
       = \<lparr>rest = cs', advances = n + 1, result_symbol = k\<rparr>) \<and>
   (is_newline (lookahead lx) \<longrightarrow>
      advances (consume_newline lx) - advances lx \<in> {1, 2} \<and>
      rest (consume_newline lx)
        = drop (advances (consume_newline lx) - advances lx) (rest lx) \<and>
      length (rest lx)
        = length (rest (consume_newline lx)) + (advances (consume_newline lx) - advances lx))"
  apply (intro conjI impI)
  subgoal by (rule is_newline_iff)
  subgoal by (rule consume_newline_CRLF)
  subgoal by (rule consume_newline_single) auto
  subgoal using consume_newline_bounds by blast
  subgoal using consume_newline_bounds by blast
  subgoal using consume_newline_bounds by blast
  done

theorem newline_classified_and_consumed_witness:
  "is_newline 0x2028 \<and>
   consume_newline \<lparr>rest = [0x0D, 0x0A, 0x61], advances = 0, result_symbol = EOF\<rparr>
     = \<lparr>rest = [0x61], advances = 2, result_symbol = EOF\<rparr> \<and>
   consume_newline \<lparr>rest = [0x0D, 0x61], advances = 0, result_symbol = EOF\<rparr>
     = \<lparr>rest = [0x61], advances = 1, result_symbol = EOF\<rparr> \<and>
   is_newline (lookahead \<lparr>rest = [0x2029, 0x0A], advances = 5, result_symbol = EOF\<rparr>) \<and>
   advances (consume_newline \<lparr>rest = [0x2029, 0x0A], advances = 5, result_symbol = EOF\<rparr>) = 6"
  using newline_classified_and_consumed [of "0x2028" "[0x61]" 0 EOF "0x0D" "[0x61]"
               "\<lparr>rest = [0x2029, 0x0A], advances = 5, result_symbol = EOF\<rparr>"]
  by (simp add: is_newline_def lookahead_def consume_newline_def advance_def)

section \<open>Entry point dispatch\<close>

text \<open>
  Claim C9. When none of the three guards of the entry point applies (the lookahead is
  not 0 with the end-of-input kind valid, not \<open>#\<close> with the raw-string kind valid, not
  \<open>/\<close> with the comment kind valid), scan returns false and the cursor is exactly what it
  was on entry.
\<close>

theorem scan_no_guard_no_advance:
  assumes "\<not> (valid_symbols EOF \<and> lookahead lx = NUL)"
      and "\<not> (valid_symbols RAW_STRING \<and> lookahead lx = HASH)"
      and "\<not> (valid_symbols MULTI_LINE_COMMENT \<and> lookahead lx = SLASH)"
  shows "scan valid_symbols lx = (False, lx)"
  using assms by (auto simp: tree_sitter_kdl_external_scanner_scan_def)

theorem scan_no_guard_no_advance_witness:
  "\<not> ((\<lambda>k. True) EOF \<and> lookahead \<lparr>rest = [0x61, 0x23], advances = 0, result_symbol = EOF\<rparr> = NUL) \<and>
   \<not> ((\<lambda>k. True) RAW_STRING \<and> lookahead \<lparr>rest = [0x61, 0x23], advances = 0, result_symbol = EOF\<rparr> = HASH) \<and>
   \<not> ((\<lambda>k. True) MULTI_LINE_COMMENT \<and> lookahead \<lparr>rest = [0x61, 0x23], advances = 0, result_symbol = EOF\<rparr> = SLASH) \<and>
   scan (\<lambda>k. True) \<lparr>rest = [0x61, 0x23], advances = 0, result_symbol = EOF\<rparr>
     = (False, \<lparr>rest = [0x61, 0x23], advances = 0, result_symbol = EOF\<rparr>)"
  using scan_no_guard_no_advance [of "\<lambda>k. True"
          "\<lparr>rest = [0x61, 0x23], advances = 0, result_symbol = EOF\<rparr>"]
  by (simp add: lookahead_def)

section \<open>The cursor only moves forward\<close>

lemma forward_refl: "forward lx lx"
  by (simp add: forward_def)

lemma forward_trans: "forward a b \<Longrightarrow> forward b c \<Longrightarrow> forward a c"
  by (auto simp: forward_def)

lemma forward_result_symbol [simp]: "forward a (b\<lparr>result_symbol := k\<rparr>) = forward a b"
  by (simp add: forward_def)

lemma forward_advance: "rest lx \<noteq> [] \<Longrightarrow> forward lx (advance lx)"
  by (cases "rest lx") (simp_all add: forward_def advance_def)

lemma forward_advance_lookahead: "lookahead lx \<noteq> NUL \<Longrightarrow> forward lx (advance lx)"
  by (simp add: forward_advance lookahead_nonempty)

lemma forward_then_advance:
  "forward a b \<Longrightarrow> lookahead b \<noteq> NUL \<Longrightarrow> forward a (advance b)"
  by (blast intro: forward_trans forward_advance_lookahead)

lemma forward_advance2:
  "lookahead lx \<noteq> NUL \<Longrightarrow> lookahead (advance lx) \<noteq> NUL \<Longrightarrow> forward lx (advance (advance lx))"
  by (blast intro: forward_trans forward_advance_lookahead)

lemma forward_consume_newline: "lookahead lx \<noteq> NUL \<Longrightarrow> forward lx (consume_newline lx)"
  by (auto simp: consume_newline_def Let_def intro: forward_advance_lookahead forward_advance2)

lemma forward_try_consume_hashes_from: "forward lx (snd (try_consume_hashes_from lx h i))"
proof (induction lx h i rule: try_consume_hashes_from.induct)
  case (1 lx hashes i)
  show ?case
  proof (cases "i < hashes \<and> lookahead lx = HASH")
    case True
    then have "forward (advance lx) (snd (try_consume_hashes_from (advance lx) hashes (i + 1)))"
      using "1.IH" by simp
    moreover have "forward lx (advance lx)"
      using True by (simp add: forward_advance_lookahead)
    ultimately show ?thesis
      using True by (subst try_consume_hashes_from.simps) (auto intro: forward_trans)
  next
    case False
    then show ?thesis
      by (subst try_consume_hashes_from.simps) (auto simp: forward_refl)
  qed
qed

lemma forward_try_consume_hashes: "try_consume_hashes lx h = (ok, lx') \<Longrightarrow> forward lx lx'"
  using forward_try_consume_hashes_from [of lx h 0] by (simp add: try_consume_hashes_def)

lemma forward_count_hashes: "forward lx (snd (count_hashes lx h))"
proof (induction lx h rule: count_hashes.induct)
  case (1 lx hashes)
  show ?case
  proof (cases "lookahead lx = HASH")
    case True
    then have "forward (advance lx) (snd (count_hashes (advance lx) (hashes + 1)))"
      using "1.IH" by simp
    moreover have "forward lx (advance lx)"
      using True by (simp add: forward_advance_lookahead)
    ultimately show ?thesis
      using True by (subst count_hashes.simps) (auto intro: forward_trans)
  next
    case False
    then show ?thesis
      by (subst count_hashes.simps) (auto simp: forward_refl)
  qed
qed

lemma forward_comment_iter:
  "(case scan_multiline_comment_iter lx a d of Inl (ok, lx') \<Rightarrow> forward lx lx'
      | Inr (lx', a', d') \<Rightarrow> forward lx lx')"
  by (auto simp: scan_multiline_comment_iter_def Let_def forward_refl
           intro: forward_advance_lookahead forward_advance2)

lemma forward_comment_loop: "forward lx (snd (scan_multiline_comment_loop lx a d))"
proof (induction lx a d rule: scan_multiline_comment_loop.induct)
  case (1 lx a d)
  show ?case
  proof (cases "scan_multiline_comment_iter lx a d")
    case (Inl r)
    then show ?thesis
      using forward_comment_iter [of lx a d]
      by (subst scan_multiline_comment_loop.simps) (auto split: prod.splits)
  next
    case (Inr s)
    obtain lx' a' d' where s: "s = (lx', a', d')" by (cases s)
    have "forward lx lx'"
      using forward_comment_iter [of lx a d] Inr s by simp
    moreover have "forward lx' (snd (scan_multiline_comment_loop lx' a' d'))"
      using "1.IH" Inr s by simp
    ultimately show ?thesis
      using Inr s by (subst scan_multiline_comment_loop.simps) (auto intro: forward_trans)
  qed
qed

lemma forward_scan_multiline_comment: "forward lx (snd (scan_multiline_comment lx))"
proof -
  have "lookahead lx = SLASH \<Longrightarrow> lookahead (advance lx) = STAR \<Longrightarrow>
        forward lx (snd (scan_multiline_comment_loop (advance (advance lx)) False 1))"
    by (rule forward_trans [OF forward_advance2 forward_comment_loop]) simp_all
  moreover have "lookahead lx = SLASH \<Longrightarrow> forward lx (advance lx)"
    by (simp add: forward_advance_lookahead)
  ultimately show ?thesis
    by (auto simp: scan_multiline_comment_def Let_def forward_refl)
qed

lemma forward_single_line_iter:
  "(case scan_raw_string_single_line_iter lx h of Inl (ok, lx') \<Rightarrow> forward lx lx'
      | Inr lx' \<Rightarrow> forward lx lx')"
proof (cases "lookahead lx = QUOTE")
  case False
  then show ?thesis
    by (auto simp: scan_raw_string_single_line_iter_def forward_refl
             intro: forward_advance_lookahead)
next
  case True
  obtain ok lx1 where t: "try_consume_hashes (advance lx) h = (ok, lx1)"
    by (cases "try_consume_hashes (advance lx) h")
  have "forward lx lx1"
    using True forward_try_consume_hashes [OF t]
    by (auto intro: forward_trans [OF forward_advance_lookahead])
  then show ?thesis
    using True t
    by (cases ok)
       (auto simp: scan_raw_string_single_line_iter_def forward_refl is_newline_def eof_def
                   lookahead_def
             split: list.splits)
qed

lemma forward_single_line: "forward lx (snd (scan_raw_string_single_line lx h))"
proof (induction lx h rule: scan_raw_string_single_line.induct)
  case (1 lx h)
  show ?case
  proof (cases "scan_raw_string_single_line_iter lx h")
    case (Inl r)
    then show ?thesis
      using forward_single_line_iter [of lx h]
      by (subst scan_raw_string_single_line.simps) (auto split: prod.splits)
  next
    case (Inr lx')
    have "forward lx lx'"
      using forward_single_line_iter [of lx h] Inr by simp
    moreover have "forward lx' (snd (scan_raw_string_single_line lx' h))"
      using "1.IH" Inr by simp
    ultimately show ?thesis
      using Inr by (subst scan_raw_string_single_line.simps) (auto intro: forward_trans)
  qed
qed

lemma forward_multi_line_iter:
  "(case scan_raw_string_multi_line_iter lx h of Inl (ok, lx') \<Rightarrow> forward lx lx'
      | Inr lx' \<Rightarrow> forward lx lx')"
proof (cases "lookahead lx = QUOTE \<and> lookahead (advance lx) = QUOTE
               \<and> lookahead (advance (advance lx)) = QUOTE")
  case False
  then show ?thesis
    by (auto simp: scan_raw_string_multi_line_iter_def Let_def forward_refl
             intro: forward_advance_lookahead forward_advance2 forward_consume_newline)
next
  case True
  obtain ok lx1 where t: "try_consume_hashes (advance (advance (advance lx))) h = (ok, lx1)"
    by (cases "try_consume_hashes (advance (advance (advance lx))) h")
  have "forward lx (advance (advance (advance lx)))"
    using True by (auto intro: forward_trans [OF forward_advance2 forward_advance_lookahead])
  then have "forward lx lx1"
    using forward_try_consume_hashes [OF t] by (rule forward_trans)
  then show ?thesis
    using True t
    by (cases ok) (auto simp: scan_raw_string_multi_line_iter_def Let_def eof_def lookahead_def
                        split: list.splits)
qed

lemma forward_multi_line: "forward lx (snd (scan_raw_string_multi_line lx h))"
proof (induction lx h rule: scan_raw_string_multi_line.induct)
  case (1 lx h)
  show ?case
  proof (cases "scan_raw_string_multi_line_iter lx h")
    case (Inl r)
    then show ?thesis
      using forward_multi_line_iter [of lx h]
      by (subst scan_raw_string_multi_line.simps) (auto split: prod.splits)
  next
    case (Inr lx')
    have "forward lx lx'"
      using forward_multi_line_iter [of lx h] Inr by simp
    moreover have "forward lx' (snd (scan_raw_string_multi_line lx' h))"
      using "1.IH" Inr by simp
    ultimately show ?thesis
      using Inr by (subst scan_raw_string_multi_line.simps) (auto intro: forward_trans)
  qed
qed

lemma forward_scan_raw_string: "forward lx (snd (scan_raw_string lx))"
proof (cases "lookahead lx = HASH")
  case False
  then show ?thesis by (simp add: scan_raw_string_def forward_refl)
next
  case True
  obtain hashes lx1 where c: "count_hashes lx 0 = (hashes, lx1)"
    by (cases "count_hashes lx 0")
  have f1: "forward lx lx1"
    using forward_count_hashes [of lx 0] c by simp
  show ?thesis
  proof (cases "lookahead lx1 = QUOTE")
    case False
    then show ?thesis using True c f1 by (simp add: scan_raw_string_def)
  next
    case q1: True
    define lx2 where "lx2 = advance lx1"
    have f2: "forward lx lx2"
      unfolding lx2_def using f1 q1 by (simp add: forward_then_advance)
    show ?thesis
    proof (cases "lookahead lx2 = QUOTE")
      case False
      then show ?thesis
        using True c q1 f2 forward_single_line [of lx2 hashes]
        by (auto simp: scan_raw_string_def Let_def lx2_def intro: forward_trans)
    next
      case q2: True
      define lx3 where "lx3 = advance lx2"
      have f3: "forward lx lx3"
        unfolding lx3_def using f2 q2 by (simp add: forward_then_advance)
      show ?thesis
      proof (cases "lookahead lx3 = QUOTE")
        case False
        obtain ok lx4 where t: "try_consume_hashes lx3 hashes = (ok, lx4)"
          by (cases "try_consume_hashes lx3 hashes")
        have "forward lx lx4"
          using f3 forward_try_consume_hashes [OF t] by (rule forward_trans)
        then show ?thesis
          using True c q1 q2 False t
          by (cases ok) (auto simp: scan_raw_string_def Let_def lx2_def lx3_def)
      next
        case q3: True
        define lx4 where "lx4 = advance lx3"
        have f4: "forward lx lx4"
          unfolding lx4_def using f3 q3 by (simp add: forward_then_advance)
        show ?thesis
        proof (cases "is_newline (lookahead lx4)")
          case False
          then show ?thesis
            using True c q1 q2 q3 f4
            by (auto simp: scan_raw_string_def Let_def lx2_def lx3_def lx4_def)
        next
          case nl: True
          have "forward lx4 (consume_newline lx4)"
            using nl by (simp add: forward_consume_newline is_newline_not_NUL)
          with f4 have "forward lx (consume_newline lx4)"
            by (rule forward_trans)
          then have "forward lx (snd (scan_raw_string_multi_line (consume_newline lx4) hashes))"
            using forward_multi_line by (rule forward_trans)
          then show ?thesis
            using True c q1 q2 q3 nl
            by (auto simp: scan_raw_string_def Let_def lx2_def lx3_def lx4_def)
        qed
      qed
    qed
  qed
qed

lemma scan_forward_or_eof:
  "forward lx (snd (scan vs lx)) \<or>
   (rest lx = [] \<and> rest (snd (scan vs lx)) = [] \<and> advances (snd (scan vs lx)) = advances lx + 1)"
  using forward_scan_raw_string [of lx] forward_scan_multiline_comment [of lx]
  by (cases "rest lx")
     (auto simp: tree_sitter_kdl_external_scanner_scan_def forward_refl advance_def forward_def)

text \<open>
  Claim C8. Every iteration of the comment loop, of the single-line body loop and of the
  multi-line body loop that does not return leaves strictly fewer code points before
  the cursor, so each loop (defined above with this measure) returns on every finite
  input. A whole scan advances at most once per code point of the input (once, for the
  end-of-input token, when the input is empty), and the cursor it leaves is the input
  without the code points advanced over.
\<close>

theorem scan_bounded_by_input:
  "(scan_multiline_comment_iter lx a d = Inr (lx', a', d') \<longrightarrow>
      length (rest lx') < length (rest lx)) \<and>
   (scan_raw_string_single_line_iter lx1 h1 = Inr lx1' \<longrightarrow>
      length (rest lx1') < length (rest lx1)) \<and>
   (scan_raw_string_multi_line_iter lx2 h2 = Inr lx2' \<longrightarrow>
      length (rest lx2') < length (rest lx2)) \<and>
   advances lx0 \<le> advances (snd (scan vs lx0)) \<and>
   advances (snd (scan vs lx0)) \<le> advances lx0 + max 1 (length (rest lx0)) \<and>
   rest (snd (scan vs lx0)) = drop (advances (snd (scan vs lx0)) - advances lx0) (rest lx0)"
proof (intro conjI impI)
  show "length (rest lx') < length (rest lx)"
    if "scan_multiline_comment_iter lx a d = Inr (lx', a', d')"
    using that by (rule scan_multiline_comment_iter_shrinks)
  show "length (rest lx1') < length (rest lx1)"
    if "scan_raw_string_single_line_iter lx1 h1 = Inr lx1'"
    using that by (rule scan_raw_string_single_line_iter_shrinks)
  show "length (rest lx2') < length (rest lx2)"
    if "scan_raw_string_multi_line_iter lx2 h2 = Inr lx2'"
    using that by (rule scan_raw_string_multi_line_iter_shrinks)
  show "advances lx0 \<le> advances (snd (scan vs lx0))"
    using scan_forward_or_eof [of lx0 vs] by (auto simp: forward_def)
  show "advances (snd (scan vs lx0)) \<le> advances lx0 + max 1 (length (rest lx0))"
    using scan_forward_or_eof [of lx0 vs] by (auto simp: forward_def)
  show "rest (snd (scan vs lx0)) = drop (advances (snd (scan vs lx0)) - advances lx0) (rest lx0)"
    using scan_forward_or_eof [of lx0 vs] by (auto simp: forward_def)
qed

theorem scan_bounded_by_input_witness:
  "scan_multiline_comment_iter \<lparr>rest = [0x2F, 0x2A, 0x61], advances = 2, result_symbol = EOF\<rparr> False 1
     = Inr (\<lparr>rest = [0x61], advances = 4, result_symbol = EOF\<rparr>, False, 2) \<and>
   scan_raw_string_single_line_iter \<lparr>rest = [0x61, 0x22], advances = 2, result_symbol = EOF\<rparr> 1
     = Inr \<lparr>rest = [0x22], advances = 3, result_symbol = EOF\<rparr> \<and>
   scan_raw_string_multi_line_iter \<lparr>rest = [0x0D, 0x0A, 0x22], advances = 5, result_symbol = EOF\<rparr> 1
     = Inr \<lparr>rest = [0x22], advances = 7, result_symbol = EOF\<rparr> \<and>
   length (rest \<lparr>rest = [0x61], advances = 4, result_symbol = EOF\<rparr>)
     < length (rest \<lparr>rest = [0x2F, 0x2A, 0x61], advances = 2, result_symbol = EOF\<rparr>) \<and>
   advances (snd (scan (\<lambda>k. True) \<lparr>rest = [0x2F, 0x2A, 0x61], advances = 0, result_symbol = EOF\<rparr>))
     \<le> 3"
  using scan_bounded_by_input [of
          "\<lparr>rest = [0x2F, 0x2A, 0x61], advances = 2, result_symbol = EOF\<rparr>" False 1
          "\<lparr>rest = [0x61], advances = 4, result_symbol = EOF\<rparr>" False 2
          "\<lparr>rest = [0x61, 0x22], advances = 2, result_symbol = EOF\<rparr>" 1
          "\<lparr>rest = [0x22], advances = 3, result_symbol = EOF\<rparr>"
          "\<lparr>rest = [0x0D, 0x0A, 0x22], advances = 5, result_symbol = EOF\<rparr>" 1
          "\<lparr>rest = [0x22], advances = 7, result_symbol = EOF\<rparr>"
          "\<lparr>rest = [0x2F, 0x2A, 0x61], advances = 0, result_symbol = EOF\<rparr>" "\<lambda>k. True"]
  by (simp add: scan_multiline_comment_iter_def scan_raw_string_single_line_iter_def
                scan_raw_string_multi_line_iter_def lookahead_def advance_def eof_def
                is_newline_def consume_newline_def)

section \<open>The kind reported on success\<close>

lemma comment_loop_kind:
  "fst (scan_multiline_comment_loop lx a d) \<Longrightarrow>
   result_symbol (snd (scan_multiline_comment_loop lx a d)) = MULTI_LINE_COMMENT"
proof (induction lx a d rule: scan_multiline_comment_loop.induct)
  case (1 lx a d)
  show ?case
  proof (cases "scan_multiline_comment_iter lx a d")
    case (Inl r)
    then have "scan_multiline_comment_loop lx a d = r"
      by (subst scan_multiline_comment_loop.simps) simp
    moreover have "fst r \<longrightarrow> result_symbol (snd r) = MULTI_LINE_COMMENT"
      using Inl by (auto simp: scan_multiline_comment_iter_def Let_def split: if_splits)
    ultimately show ?thesis using "1.prems" by simp
  next
    case (Inr s)
    obtain lx' a' d' where s: "s = (lx', a', d')" by (cases s)
    have eq: "scan_multiline_comment_loop lx a d = scan_multiline_comment_loop lx' a' d'"
      using Inr s by (subst scan_multiline_comment_loop.simps) simp
    show ?thesis
      using "1.IH" [OF Inr s [symmetric] refl] "1.prems" unfolding eq by simp
  qed
qed

lemma scan_multiline_comment_kind:
  "fst (scan_multiline_comment lx) \<Longrightarrow>
   result_symbol (snd (scan_multiline_comment lx)) = MULTI_LINE_COMMENT"
  by (auto simp: scan_multiline_comment_def Let_def comment_loop_kind split: if_splits)

lemma single_line_kind:
  "fst (scan_raw_string_single_line lx h) \<Longrightarrow>
   result_symbol (snd (scan_raw_string_single_line lx h)) = RAW_STRING"
proof (induction lx h rule: scan_raw_string_single_line.induct)
  case (1 lx h)
  show ?case
  proof (cases "scan_raw_string_single_line_iter lx h")
    case (Inl r)
    then have "scan_raw_string_single_line lx h = r"
      by (subst scan_raw_string_single_line.simps) simp
    moreover have "fst r \<longrightarrow> result_symbol (snd r) = RAW_STRING"
      using Inl
      by (auto simp: scan_raw_string_single_line_iter_def
               split: if_splits prod.splits bool.splits)
    ultimately show ?thesis using "1.prems" by simp
  next
    case (Inr lx')
    have eq: "scan_raw_string_single_line lx h = scan_raw_string_single_line lx' h"
      using Inr by (subst scan_raw_string_single_line.simps) simp
    show ?thesis
      using "1.IH" [OF Inr] "1.prems" unfolding eq by simp
  qed
qed

lemma multi_line_kind:
  "fst (scan_raw_string_multi_line lx h) \<Longrightarrow>
   result_symbol (snd (scan_raw_string_multi_line lx h)) = RAW_STRING"
proof (induction lx h rule: scan_raw_string_multi_line.induct)
  case (1 lx h)
  show ?case
  proof (cases "scan_raw_string_multi_line_iter lx h")
    case (Inl r)
    then have "scan_raw_string_multi_line lx h = r"
      by (subst scan_raw_string_multi_line.simps) simp
    moreover have "fst r \<longrightarrow> result_symbol (snd r) = RAW_STRING"
      using Inl
      by (auto simp: scan_raw_string_multi_line_iter_def Let_def
               split: if_splits prod.splits bool.splits)
    ultimately show ?thesis using "1.prems" by simp
  next
    case (Inr lx')
    have eq: "scan_raw_string_multi_line lx h = scan_raw_string_multi_line lx' h"
      using Inr by (subst scan_raw_string_multi_line.simps) simp
    show ?thesis
      using "1.IH" [OF Inr] "1.prems" unfolding eq by simp
  qed
qed

lemma scan_raw_string_kind:
  "fst (scan_raw_string lx) \<Longrightarrow> result_symbol (snd (scan_raw_string lx)) = RAW_STRING"
  by (auto simp: scan_raw_string_def Let_def single_line_kind multi_line_kind
           split: if_splits prod.splits bool.splits)

lemma scan_kind_valid:
  "fst (scan vs lx) \<Longrightarrow> vs (result_symbol (snd (scan vs lx)))"
  by (auto simp: tree_sitter_kdl_external_scanner_scan_def advance_def
                 scan_raw_string_kind scan_multiline_comment_kind split: if_splits)

text \<open>
  Claim C4. Whenever scan returns true, the kind it has stored in the result symbol is
  set in the valid-kind set. The guards are tried in the order end-of-input, raw string
  (lookahead \<open>#\<close>), multi-line comment (lookahead \<open>/\<close>): with the first guard true scan
  reports the end-of-input kind; with the first false and the second true it is the
  raw-string scanner, which reports the raw-string kind when it succeeds; with the first
  two false and the third true it is the comment scanner, which reports the comment kind
  when it succeeds.
\<close>

theorem scan_reports_valid_kind:
  "(fst (scan vs lx) \<longrightarrow> vs (result_symbol (snd (scan vs lx)))) \<and>
   (vs EOF \<and> lookahead lx0 = NUL \<longrightarrow>
      scan vs lx0 = (True, advance (lx0\<lparr>result_symbol := EOF\<rparr>))) \<and>
   (\<not> (vs EOF \<and> lookahead lx1 = NUL) \<and> vs RAW_STRING \<and> lookahead lx1 = HASH \<longrightarrow>
      scan vs lx1 = scan_raw_string lx1 \<and>
      (fst (scan vs lx1) \<longrightarrow> result_symbol (snd (scan vs lx1)) = RAW_STRING)) \<and>
   (\<not> (vs EOF \<and> lookahead lx2 = NUL) \<and> \<not> (vs RAW_STRING \<and> lookahead lx2 = HASH) \<and>
    vs MULTI_LINE_COMMENT \<and> lookahead lx2 = SLASH \<longrightarrow>
      scan vs lx2 = scan_multiline_comment lx2 \<and>
      (fst (scan vs lx2) \<longrightarrow> result_symbol (snd (scan vs lx2)) = MULTI_LINE_COMMENT))"
proof (intro conjI impI)
  show "vs (result_symbol (snd (scan vs lx)))" if "fst (scan vs lx)"
    using that by (rule scan_kind_valid)
  show "scan vs lx0 = (True, advance (lx0\<lparr>result_symbol := EOF\<rparr>))"
    if "vs EOF \<and> lookahead lx0 = NUL"
    using that by (simp add: tree_sitter_kdl_external_scanner_scan_def)
  assume g1: "\<not> (vs EOF \<and> lookahead lx1 = NUL) \<and> vs RAW_STRING \<and> lookahead lx1 = HASH"
  then show e1: "scan vs lx1 = scan_raw_string lx1"
    by (simp add: tree_sitter_kdl_external_scanner_scan_def)
  show "result_symbol (snd (scan vs lx1)) = RAW_STRING" if "fst (scan vs lx1)"
    using that unfolding e1 by (rule scan_raw_string_kind)
next
  assume g2: "\<not> (vs EOF \<and> lookahead lx2 = NUL) \<and> \<not> (vs RAW_STRING \<and> lookahead lx2 = HASH) \<and>
    vs MULTI_LINE_COMMENT \<and> lookahead lx2 = SLASH"
  then show e2: "scan vs lx2 = scan_multiline_comment lx2"
    by (simp add: tree_sitter_kdl_external_scanner_scan_def)
  show "result_symbol (snd (scan vs lx2)) = MULTI_LINE_COMMENT" if "fst (scan vs lx2)"
    using that unfolding e2 by (rule scan_multiline_comment_kind)
qed

theorem scan_reports_valid_kind_witness:
  "fst (scan (\<lambda>k. True) \<lparr>rest = [0x23, 0x22, 0x61, 0x22, 0x23], advances = 0, result_symbol = EOF\<rparr>) \<and>
   result_symbol (snd (scan (\<lambda>k. True)
       \<lparr>rest = [0x23, 0x22, 0x61, 0x22, 0x23], advances = 0, result_symbol = EOF\<rparr>)) = RAW_STRING \<and>
   lookahead \<lparr>rest = [], advances = 0, result_symbol = RAW_STRING\<rparr> = NUL \<and>
   scan (\<lambda>k. True) \<lparr>rest = [], advances = 0, result_symbol = RAW_STRING\<rparr>
     = (True, \<lparr>rest = [], advances = 1, result_symbol = EOF\<rparr>) \<and>
   lookahead \<lparr>rest = [0x2F, 0x2A, 0x2A, 0x2F], advances = 0, result_symbol = EOF\<rparr> = SLASH \<and>
   scan (\<lambda>k. True) \<lparr>rest = [0x2F, 0x2A, 0x2A, 0x2F], advances = 0, result_symbol = EOF\<rparr>
     = (True, \<lparr>rest = [], advances = 4, result_symbol = MULTI_LINE_COMMENT\<rparr>)"
  using scan_reports_valid_kind [of "\<lambda>k. True"
     "\<lparr>rest = [0x23, 0x22, 0x61, 0x22, 0x23], advances = 0, result_symbol = EOF\<rparr>"
     "\<lparr>rest = [], advances = 0, result_symbol = RAW_STRING\<rparr>"
     "\<lparr>rest = [0x23, 0x22, 0x61, 0x22, 0x23], advances = 0, result_symbol = EOF\<rparr>"
     "\<lparr>rest = [0x2F, 0x2A, 0x2A, 0x2F], advances = 0, result_symbol = EOF\<rparr>"]
  by (simp add: tree_sitter_kdl_external_scanner_scan_def scan_raw_string_def
        count_hashes.simps try_consume_hashes_def try_consume_hashes_from.simps
        scan_raw_string_single_line.simps scan_raw_string_single_line_iter_def
        scan_multiline_comment_def scan_multiline_comment_loop.simps
        scan_multiline_comment_iter_def lookahead_def advance_def eof_def is_newline_def)

section \<open>The code point 0 and the end of the input\<close>

lemma comment_loop_NUL:
  "lookahead lx = NUL \<Longrightarrow> scan_multiline_comment_loop lx a d = (False, lx)"
  by (subst scan_multiline_comment_loop.simps) (simp add: scan_multiline_comment_iter_def)

lemma single_line_NUL:
  "lookahead lx = NUL \<Longrightarrow> scan_raw_string_single_line lx h = (False, lx)"
  by (subst scan_raw_string_single_line.simps) (simp add: scan_raw_string_single_line_iter_def)

lemma multi_line_NUL:
  "lookahead lx = NUL \<Longrightarrow> scan_raw_string_multi_line lx h = (False, lx)"
  by (subst scan_raw_string_multi_line.simps) (simp add: scan_raw_string_multi_line_iter_def)

lemma nul_cut_lookahead: "nul_cut ys la lb \<Longrightarrow> lookahead la = lookahead lb"
  by (cases "rest lb") (auto simp: nul_cut_def lookahead_def)

lemma nul_cut_eof:
  "nul_cut ys la lb \<Longrightarrow> (eof la \<or> lookahead la = NUL) = (eof lb \<or> lookahead lb = NUL)"
  by (cases "rest lb") (auto simp: nul_cut_def lookahead_def eof_def)

lemma nul_cut_advance:
  "nul_cut ys la lb \<Longrightarrow> lookahead lb \<noteq> NUL \<Longrightarrow> nul_cut ys (advance la) (advance lb)"
  by (cases "rest lb") (auto simp: nul_cut_def lookahead_def advance_def)

lemma nul_cut_result_symbol:
  "nul_cut ys la lb \<Longrightarrow> nul_cut ys (la\<lparr>result_symbol := k\<rparr>) (lb\<lparr>result_symbol := k\<rparr>)"
  by (simp add: nul_cut_def)

lemma nul_cut_consume_newline:
  assumes "nul_cut ys la lb" "lookahead lb \<noteq> NUL"
  shows "nul_cut ys (consume_newline la) (consume_newline lb)"
proof -
  have 1: "nul_cut ys (advance la) (advance lb)"
    using assms by (rule nul_cut_advance)
  have 2: "lookahead (advance lb) = LF \<Longrightarrow> nul_cut ys (advance (advance la)) (advance (advance lb))"
    using 1 by (rule nul_cut_advance) simp
  show ?thesis
    using 1 2 nul_cut_lookahead [OF assms(1)] nul_cut_lookahead [OF 1]
    by (simp add: consume_newline_def Let_def)
qed

lemma nul_cut_try_consume_hashes_from:
  "nul_cut ys la lb \<Longrightarrow>
   fst (try_consume_hashes_from la h i) = fst (try_consume_hashes_from lb h i) \<and>
   nul_cut ys (snd (try_consume_hashes_from la h i)) (snd (try_consume_hashes_from lb h i))"
proof (induction la h i arbitrary: lb rule: try_consume_hashes_from.induct)
  case (1 la hashes i)
  note la = nul_cut_lookahead [OF "1.prems"]
  show ?case
  proof (cases "i < hashes \<and> lookahead la = HASH")
    case True
    then have "nul_cut ys (advance la) (advance lb)"
      using "1.prems" la by (simp add: nul_cut_advance)
    then have "fst (try_consume_hashes_from (advance la) hashes (i + 1))
                 = fst (try_consume_hashes_from (advance lb) hashes (i + 1)) \<and>
               nul_cut ys (snd (try_consume_hashes_from (advance la) hashes (i + 1)))
                          (snd (try_consume_hashes_from (advance lb) hashes (i + 1)))"
      using "1.IH" True by simp
    then show ?thesis
      using True la
      by (subst (1 2) try_consume_hashes_from.simps [of la])
         (subst (1 2) try_consume_hashes_from.simps [of lb], simp)
  next
    case False
    then show ?thesis
      using "1.prems" la
      by (subst (1 2) try_consume_hashes_from.simps [of la])
         (subst (1 2) try_consume_hashes_from.simps [of lb], auto)
  qed
qed

lemma nul_cut_try_consume_hashes:
  "nul_cut ys la lb \<Longrightarrow>
   \<exists>ok la' lb'. try_consume_hashes la h = (ok, la') \<and> try_consume_hashes lb h = (ok, lb') \<and>
                nul_cut ys la' lb'"
  using nul_cut_try_consume_hashes_from [of ys la lb h 0]
  by (cases "try_consume_hashes_from la h 0"; cases "try_consume_hashes_from lb h 0")
     (simp add: try_consume_hashes_def)

lemma nul_cut_comment_iter:
  assumes "nul_cut ys la lb"
  shows "(\<exists>ok la' lb'. scan_multiline_comment_iter la a d = Inl (ok, la') \<and>
            scan_multiline_comment_iter lb a d = Inl (ok, lb') \<and> nul_cut ys la' lb') \<or>
         (\<exists>la' lb' a' d'. scan_multiline_comment_iter la a d = Inr (la', a', d') \<and>
            scan_multiline_comment_iter lb a d = Inr (lb', a', d') \<and> nul_cut ys la' lb')"
proof (cases "lookahead lb = NUL")
  case True
  then show ?thesis
    using assms nul_cut_lookahead [OF assms] by (auto simp: scan_multiline_comment_iter_def)
next
  case False
  note la = nul_cut_lookahead [OF assms]
  have 1: "nul_cut ys (advance la) (advance lb)"
    using assms False by (rule nul_cut_advance)
  note la1 = nul_cut_lookahead [OF 1]
  have 2: "lookahead (advance lb) = STAR \<Longrightarrow>
           nul_cut ys (advance (advance la)) (advance (advance lb))"
    using 1 by (rule nul_cut_advance) simp
  show ?thesis
    using False la la1 1 2 nul_cut_result_symbol [OF 1]
    by (auto simp: scan_multiline_comment_iter_def Let_def)
qed

lemma nul_cut_comment_loop:
  "nul_cut ys la lb \<Longrightarrow>
   fst (scan_multiline_comment_loop la a d) = fst (scan_multiline_comment_loop lb a d) \<and>
   nul_cut ys (snd (scan_multiline_comment_loop la a d)) (snd (scan_multiline_comment_loop lb a d))"
proof (induction la a d arbitrary: lb rule: scan_multiline_comment_loop.induct)
  case (1 la a d)
  from nul_cut_comment_iter [OF "1.prems", of a d] show ?case
  proof (elim disjE exE conjE)
    fix ok la' lb'
    assume "scan_multiline_comment_iter la a d = Inl (ok, la')"
       "scan_multiline_comment_iter lb a d = Inl (ok, lb')" "nul_cut ys la' lb'"
    then show ?thesis
      by (subst (1 2) scan_multiline_comment_loop.simps [of la])
         (subst (1 2) scan_multiline_comment_loop.simps [of lb], simp)
  next
    fix la' lb' a' d'
    assume *: "scan_multiline_comment_iter la a d = Inr (la', a', d')"
       "scan_multiline_comment_iter lb a d = Inr (lb', a', d')" "nul_cut ys la' lb'"
    from "1.IH" [OF *(1) refl refl *(3)] * show ?thesis
      by (subst (1 2) scan_multiline_comment_loop.simps [of la])
         (subst (1 2) scan_multiline_comment_loop.simps [of lb], simp)
  qed
qed

lemma nul_cut_scan_multiline_comment:
  assumes "nul_cut ys la lb"
  shows "fst (scan_multiline_comment la) = fst (scan_multiline_comment lb) \<and>
         advances (snd (scan_multiline_comment la)) = advances (snd (scan_multiline_comment lb)) \<and>
         result_symbol (snd (scan_multiline_comment la))
           = result_symbol (snd (scan_multiline_comment lb))"
proof (cases "lookahead lb = SLASH")
  case False
  then show ?thesis
    using assms nul_cut_lookahead [OF assms] by (simp add: scan_multiline_comment_def nul_cut_def)
next
  case True
  note la = nul_cut_lookahead [OF assms]
  have 1: "nul_cut ys (advance la) (advance lb)"
    using assms True by (simp add: nul_cut_advance)
  note la1 = nul_cut_lookahead [OF 1]
  have 2: "lookahead (advance lb) = STAR \<Longrightarrow>
           nul_cut ys (advance (advance la)) (advance (advance lb))"
    using 1 by (rule nul_cut_advance) simp
  show ?thesis
    using True la la1 1 nul_cut_comment_loop [OF 2, of False 1]
    by (auto simp: scan_multiline_comment_def Let_def nul_cut_def)
qed

lemma nul_cut_single_line_iter:
  assumes "nul_cut ys la lb"
  shows "(\<exists>ok la' lb'. scan_raw_string_single_line_iter la h = Inl (ok, la') \<and>
            scan_raw_string_single_line_iter lb h = Inl (ok, lb') \<and> nul_cut ys la' lb') \<or>
         (\<exists>la' lb'. scan_raw_string_single_line_iter la h = Inr la' \<and>
            scan_raw_string_single_line_iter lb h = Inr lb' \<and> nul_cut ys la' lb')"
proof (cases "eof lb \<or> lookahead lb = NUL")
  case True
  then show ?thesis
    using assms nul_cut_eof [OF assms] by (auto simp: scan_raw_string_single_line_iter_def)
next
  case False
  note la = nul_cut_lookahead [OF assms]
  have 1: "nul_cut ys (advance la) (advance lb)"
    using assms False by (simp add: nul_cut_advance)
  obtain ok la' lb' where t: "try_consume_hashes (advance la) h = (ok, la')"
      "try_consume_hashes (advance lb) h = (ok, lb')" "nul_cut ys la' lb'"
    using nul_cut_try_consume_hashes [OF 1] by blast
  show ?thesis
    using False nul_cut_eof [OF assms] la 1 t assms nul_cut_result_symbol [OF t(3)]
    by (cases ok) (auto simp: scan_raw_string_single_line_iter_def)
qed

lemma nul_cut_single_line:
  "nul_cut ys la lb \<Longrightarrow>
   fst (scan_raw_string_single_line la h) = fst (scan_raw_string_single_line lb h) \<and>
   nul_cut ys (snd (scan_raw_string_single_line la h)) (snd (scan_raw_string_single_line lb h))"
proof (induction la h arbitrary: lb rule: scan_raw_string_single_line.induct)
  case (1 la h)
  from nul_cut_single_line_iter [OF "1.prems", of h] show ?case
  proof (elim disjE exE conjE)
    fix ok la' lb'
    assume "scan_raw_string_single_line_iter la h = Inl (ok, la')"
       "scan_raw_string_single_line_iter lb h = Inl (ok, lb')" "nul_cut ys la' lb'"
    then show ?thesis
      by (subst (1 2) scan_raw_string_single_line.simps [of la])
         (subst (1 2) scan_raw_string_single_line.simps [of lb], simp)
  next
    fix la' lb'
    assume *: "scan_raw_string_single_line_iter la h = Inr la'"
       "scan_raw_string_single_line_iter lb h = Inr lb'" "nul_cut ys la' lb'"
    from "1.IH" [OF *(1) *(3)] * show ?thesis
      by (subst (1 2) scan_raw_string_single_line.simps [of la])
         (subst (1 2) scan_raw_string_single_line.simps [of lb], simp)
  qed
qed

lemma nul_cut_multi_line_iter:
  assumes "nul_cut ys la lb"
  shows "(\<exists>ok la' lb'. scan_raw_string_multi_line_iter la h = Inl (ok, la') \<and>
            scan_raw_string_multi_line_iter lb h = Inl (ok, lb') \<and> nul_cut ys la' lb') \<or>
         (\<exists>la' lb'. scan_raw_string_multi_line_iter la h = Inr la' \<and>
            scan_raw_string_multi_line_iter lb h = Inr lb' \<and> nul_cut ys la' lb')"
proof (cases "eof lb \<or> lookahead lb = NUL")
  case True
  then show ?thesis
    using assms nul_cut_eof [OF assms] by (auto simp: scan_raw_string_multi_line_iter_def)
next
  case False
  note la = nul_cut_lookahead [OF assms]
  have 1: "nul_cut ys (advance la) (advance lb)"
    using assms False by (simp add: nul_cut_advance)
  note la1 = nul_cut_lookahead [OF 1]
  have nl: "nul_cut ys (consume_newline la) (consume_newline lb)"
    using assms False by (simp add: nul_cut_consume_newline)
  show ?thesis
  proof (cases "lookahead lb = QUOTE \<and> lookahead (advance lb) = QUOTE")
    case F2: False
    then show ?thesis
      using False nul_cut_eof [OF assms] la la1 1 nl
      by (auto simp: scan_raw_string_multi_line_iter_def Let_def)
  next
    case True
    have 2: "nul_cut ys (advance (advance la)) (advance (advance lb))"
      using 1 True by (simp add: nul_cut_advance)
    note la2 = nul_cut_lookahead [OF 2]
    show ?thesis
    proof (cases "lookahead (advance (advance lb)) = QUOTE")
      case F3: False
      then show ?thesis
        using False True nul_cut_eof [OF assms] la la1 la2 2
        by (auto simp: scan_raw_string_multi_line_iter_def Let_def)
    next
      case T3: True
      have 3: "nul_cut ys (advance (advance (advance la))) (advance (advance (advance lb)))"
        using 2 T3 by (simp add: nul_cut_advance)
      obtain ok la' lb' where t: "try_consume_hashes (advance (advance (advance la))) h = (ok, la')"
          "try_consume_hashes (advance (advance (advance lb))) h = (ok, lb')" "nul_cut ys la' lb'"
        using nul_cut_try_consume_hashes [OF 3] by blast
      show ?thesis
        using False True T3 nul_cut_eof [OF assms] la la1 la2 t nul_cut_result_symbol [OF t(3)]
        by (cases ok) (auto simp: scan_raw_string_multi_line_iter_def Let_def)
    qed
  qed
qed

lemma nul_cut_multi_line:
  "nul_cut ys la lb \<Longrightarrow>
   fst (scan_raw_string_multi_line la h) = fst (scan_raw_string_multi_line lb h) \<and>
   nul_cut ys (snd (scan_raw_string_multi_line la h)) (snd (scan_raw_string_multi_line lb h))"
proof (induction la h arbitrary: lb rule: scan_raw_string_multi_line.induct)
  case (1 la h)
  from nul_cut_multi_line_iter [OF "1.prems", of h] show ?case
  proof (elim disjE exE conjE)
    fix ok la' lb'
    assume "scan_raw_string_multi_line_iter la h = Inl (ok, la')"
       "scan_raw_string_multi_line_iter lb h = Inl (ok, lb')" "nul_cut ys la' lb'"
    then show ?thesis
      by (subst (1 2) scan_raw_string_multi_line.simps [of la])
         (subst (1 2) scan_raw_string_multi_line.simps [of lb], simp)
  next
    fix la' lb'
    assume *: "scan_raw_string_multi_line_iter la h = Inr la'"
       "scan_raw_string_multi_line_iter lb h = Inr lb'" "nul_cut ys la' lb'"
    from "1.IH" [OF *(1) *(3)] * show ?thesis
      by (subst (1 2) scan_raw_string_multi_line.simps [of la])
         (subst (1 2) scan_raw_string_multi_line.simps [of lb], simp)
  qed
qed

lemma nul_cut_count_hashes:
  "nul_cut ys la lb \<Longrightarrow>
   fst (count_hashes la h) = fst (count_hashes lb h) \<and>
   nul_cut ys (snd (count_hashes la h)) (snd (count_hashes lb h))"
proof (induction la h arbitrary: lb rule: count_hashes.induct)
  case (1 la hashes)
  note la = nul_cut_lookahead [OF "1.prems"]
  show ?case
  proof (cases "lookahead la = HASH")
    case True
    then have "nul_cut ys (advance la) (advance lb)"
      using "1.prems" la by (simp add: nul_cut_advance)
    then have "fst (count_hashes (advance la) (hashes + 1))
                 = fst (count_hashes (advance lb) (hashes + 1)) \<and>
               nul_cut ys (snd (count_hashes (advance la) (hashes + 1)))
                          (snd (count_hashes (advance lb) (hashes + 1)))"
      using "1.IH" True by simp
    then show ?thesis
      using True la
      by (subst (1 2) count_hashes.simps [of la]) (subst (1 2) count_hashes.simps [of lb], simp)
  next
    case False
    then show ?thesis
      using "1.prems" la
      by (subst (1 2) count_hashes.simps [of la]) (subst (1 2) count_hashes.simps [of lb], auto)
  qed
qed

lemma nul_cut_scan_raw_string:
  assumes "nul_cut ys la lb"
  shows "fst (scan_raw_string la) = fst (scan_raw_string lb) \<and>
         nul_cut ys (snd (scan_raw_string la)) (snd (scan_raw_string lb))"
proof (cases "lookahead lb = HASH")
  case False
  then show ?thesis
    using assms nul_cut_lookahead [OF assms] by (simp add: scan_raw_string_def)
next
  case True
  note la = nul_cut_lookahead [OF assms]
  obtain hashes la1 lb1 where c: "count_hashes la 0 = (hashes, la1)"
      "count_hashes lb 0 = (hashes, lb1)" and c1: "nul_cut ys la1 lb1"
    using nul_cut_count_hashes [OF assms, of 0]
    by (cases "count_hashes la 0"; cases "count_hashes lb 0") simp
  note l1 = nul_cut_lookahead [OF c1]
  show ?thesis
  proof (cases "lookahead lb1 = QUOTE")
    case False
    then show ?thesis using True la c c1 l1 by (simp add: scan_raw_string_def)
  next
    case q1: True
    have c2: "nul_cut ys (advance la1) (advance lb1)"
      using c1 q1 by (simp add: nul_cut_advance)
    note l2 = nul_cut_lookahead [OF c2]
    show ?thesis
    proof (cases "lookahead (advance lb1) = QUOTE")
      case False
      then show ?thesis
        using True la c l1 q1 l2 nul_cut_single_line [OF c2, of hashes]
        by (simp add: scan_raw_string_def Let_def)
    next
      case q2: True
      have c3: "nul_cut ys (advance (advance la1)) (advance (advance lb1))"
        using c2 q2 by (simp add: nul_cut_advance)
      note l3 = nul_cut_lookahead [OF c3]
      show ?thesis
      proof (cases "lookahead (advance (advance lb1)) = QUOTE")
        case False
        obtain ok la' lb' where t: "try_consume_hashes (advance (advance la1)) hashes = (ok, la')"
            "try_consume_hashes (advance (advance lb1)) hashes = (ok, lb')" "nul_cut ys la' lb'"
          using nul_cut_try_consume_hashes [OF c3] by blast
        show ?thesis
          using True la c l1 q1 l2 q2 l3 False t nul_cut_result_symbol [OF t(3)]
          by (cases ok) (simp_all add: scan_raw_string_def Let_def)
      next
        case q3: True
        have c4: "nul_cut ys (advance (advance (advance la1))) (advance (advance (advance lb1)))"
          using c3 q3 by (simp add: nul_cut_advance)
        note l4 = nul_cut_lookahead [OF c4]
        show ?thesis
        proof (cases "is_newline (lookahead (advance (advance (advance lb1))))")
          case False
          then show ?thesis
            using True la c l1 q1 l2 q2 l3 q3 l4 c4
            by (simp add: scan_raw_string_def Let_def)
        next
          case nl: True
          have "nul_cut ys (consume_newline (advance (advance (advance la1))))
                           (consume_newline (advance (advance (advance lb1))))"
            using c4 nl by (simp add: nul_cut_consume_newline is_newline_not_NUL)
          from nul_cut_multi_line [OF this, of hashes] show ?thesis
            using True la c l1 q1 l2 q2 l3 q3 l4 nl
            by (simp add: scan_raw_string_def Let_def)
        qed
      qed
    qed
  qed
qed

lemma nul_cut_scan:
  assumes "nul_cut ys la lb"
  shows "fst (scan vs la) = fst (scan vs lb) \<and>
         advances (snd (scan vs la)) = advances (snd (scan vs lb)) \<and>
         result_symbol (snd (scan vs la)) = result_symbol (snd (scan vs lb))"
  using assms nul_cut_lookahead [OF assms] nul_cut_scan_raw_string [OF assms]
    nul_cut_scan_multiline_comment [OF assms]
  by (auto simp: tree_sitter_kdl_external_scanner_scan_def nul_cut_def advance_def)

text \<open>
  Claim C10. A lookahead of 0 is the end of the input for the scanner. At the entry
  point, with the end-of-input kind valid, a lookahead of 0 gives the end-of-input
  token after one advance. At the head of the comment loop, of the single-line body loop
  and of the multi-line body loop a lookahead of 0 makes the scan fail where it stands.
  And a 0 in the middle of the input cannot be told from the end of the input: a scan
  of an input with a 0 in it and a scan of the input cut before that 0 return the same
  answer and the same kind after the same number of advances.
\<close>

theorem nul_is_end_of_input:
  "(vs EOF \<and> lookahead lx = NUL \<longrightarrow>
      scan vs lx = (True, advance (lx\<lparr>result_symbol := EOF\<rparr>)) \<and>
      advances (snd (scan vs lx)) = advances lx + 1 \<and>
      result_symbol (snd (scan vs lx)) = EOF) \<and>
   (lookahead lx1 = NUL \<longrightarrow> scan_multiline_comment_loop lx1 a d = (False, lx1)) \<and>
   (lookahead lx2 = NUL \<longrightarrow> scan_raw_string_single_line lx2 h2 = (False, lx2)) \<and>
   (lookahead lx3 = NUL \<longrightarrow> scan_raw_string_multi_line lx3 h3 = (False, lx3)) \<and>
   fst (scan vs' \<lparr>rest = xs @ NUL # ys, advances = n, result_symbol = k\<rparr>)
     = fst (scan vs' \<lparr>rest = xs, advances = n, result_symbol = k\<rparr>) \<and>
   advances (snd (scan vs' \<lparr>rest = xs @ NUL # ys, advances = n, result_symbol = k\<rparr>))
     = advances (snd (scan vs' \<lparr>rest = xs, advances = n, result_symbol = k\<rparr>)) \<and>
   result_symbol (snd (scan vs' \<lparr>rest = xs @ NUL # ys, advances = n, result_symbol = k\<rparr>))
     = result_symbol (snd (scan vs' \<lparr>rest = xs, advances = n, result_symbol = k\<rparr>))"
proof -
  have cut: "nul_cut ys \<lparr>rest = xs @ NUL # ys, advances = n, result_symbol = k\<rparr>
                        \<lparr>rest = xs, advances = n, result_symbol = k\<rparr>"
    by (simp add: nul_cut_def)
  have "vs EOF \<and> lookahead lx = NUL \<Longrightarrow>
      scan vs lx = (True, advance (lx\<lparr>result_symbol := EOF\<rparr>)) \<and>
      advances (snd (scan vs lx)) = advances lx + 1 \<and>
      result_symbol (snd (scan vs lx)) = EOF"
    by (simp add: tree_sitter_kdl_external_scanner_scan_def advance_def)
  then show ?thesis
    using nul_cut_scan [OF cut, of vs'] comment_loop_NUL [of lx1 a d]
      single_line_NUL [of lx2 h2] multi_line_NUL [of lx3 h3]
    by blast
qed

theorem nul_is_end_of_input_witness:
  "lookahead \<lparr>rest = [0, 0x61], advances = 3, result_symbol = RAW_STRING\<rparr> = NUL \<and>
   scan (\<lambda>k. True) \<lparr>rest = [0, 0x61], advances = 3, result_symbol = RAW_STRING\<rparr>
     = (True, \<lparr>rest = [0x61], advances = 4, result_symbol = EOF\<rparr>) \<and>
   scan_multiline_comment_loop \<lparr>rest = [0, 0x2A, 0x2F], advances = 2, result_symbol = EOF\<rparr> True 1
     = (False, \<lparr>rest = [0, 0x2A, 0x2F], advances = 2, result_symbol = EOF\<rparr>) \<and>
   scan_raw_string_single_line \<lparr>rest = [0, 0x22, 0x23], advances = 2, result_symbol = EOF\<rparr> 1
     = (False, \<lparr>rest = [0, 0x22, 0x23], advances = 2, result_symbol = EOF\<rparr>) \<and>
   scan_raw_string_multi_line \<lparr>rest = [], advances = 6, result_symbol = EOF\<rparr> 1
     = (False, \<lparr>rest = [], advances = 6, result_symbol = EOF\<rparr>) \<and>
   fst (scan (\<lambda>k. True) \<lparr>rest = [0x2F, 0x2A, 0x61] @ [0, 0x2A, 0x2F], advances = 0, result_symbol = EOF\<rparr>)
     = fst (scan (\<lambda>k. True) \<lparr>rest = [0x2F, 0x2A, 0x61], advances = 0, result_symbol = EOF\<rparr>)"
  using nul_is_end_of_input [of "\<lambda>k. True"
     "\<lparr>rest = [0, 0x61], advances = 3, result_symbol = RAW_STRING\<rparr>"
     "\<lparr>rest = [0, 0x2A, 0x2F], advances = 2, result_symbol = EOF\<rparr>" True 1
     "\<lparr>rest = [0, 0x22, 0x23], advances = 2, result_symbol = EOF\<rparr>" 1
     "\<lparr>rest = [], advances = 6, result_symbol = EOF\<rparr>" 1
     "\<lambda>k. True" "[0x2F, 0x2A, 0x61]" "[0x2A, 0x2F]" 0 EOF]
  by (simp add: lookahead_def advance_def)

section \<open>Counting and probing hashes\<close>

text \<open>
  The probe for the closing hashes on a run of \<open>K\<close> hashes that a code point other than
  \<open>#\<close>, or the end of the input, follows.
\<close>

lemma try_consume_hashes_from_run:
  fixes i h :: "32 word"
  assumes "i \<le> h" and "R = [] \<or> hd R \<noteq> HASH"
  shows "try_consume_hashes_from \<lparr>rest = replicate K HASH @ R, advances = n, result_symbol = k\<rparr> h i
           = (if unat h - unat i \<le> K
              then (True, \<lparr>rest = replicate (K - (unat h - unat i)) HASH @ R,
                           advances = n + (unat h - unat i), result_symbol = k\<rparr>)
              else (False, \<lparr>rest = R, advances = n + K, result_symbol = k\<rparr>))"
  using assms(1)
proof (induction K arbitrary: i n)
  case 0
  show ?case
  proof (cases "i < h")
    case True
    then have "unat i < unat h" by (simp add: word_less_nat_alt)
    then show ?thesis
      using True assms(2)
      by (subst try_consume_hashes_from.simps) (cases R; simp add: lookahead_def)
  next
    case False
    then have "i = h" using "0.prems" by simp
    then show ?thesis
      by (subst try_consume_hashes_from.simps) simp
  qed
next
  case (Suc K)
  show ?case
  proof (cases "i < h")
    case True
    then have lt: "unat i < unat h" by (simp add: word_less_nat_alt)
    have le: "i + 1 \<le> h" using True by (rule inc_le)
    have u: "unat (i + 1) = Suc (unat i)" using True by (rule unat_inc)
    have "try_consume_hashes_from \<lparr>rest = replicate (Suc K) HASH @ R, advances = n, result_symbol = k\<rparr> h i
            = try_consume_hashes_from \<lparr>rest = replicate K HASH @ R, advances = Suc n, result_symbol = k\<rparr> h (i + 1)"
      using True
      by (subst try_consume_hashes_from.simps) (simp add: lookahead_def advance_def)
    also note Suc.IH [OF le, of "Suc n"]
    finally show ?thesis
      using lt u by (auto simp: Suc_diff_Suc)
  next
    case False
    then have "i = h" using Suc.prems by simp
    then show ?thesis
      by (subst try_consume_hashes_from.simps) simp
  qed
qed

lemma try_consume_hashes_run:
  assumes "R = [] \<or> hd R \<noteq> HASH"
  shows "try_consume_hashes \<lparr>rest = replicate K HASH @ R, advances = n, result_symbol = k\<rparr> h
           = (if unat h \<le> K
              then (True, \<lparr>rest = replicate (K - unat h) HASH @ R,
                           advances = n + unat h, result_symbol = k\<rparr>)
              else (False, \<lparr>rest = R, advances = n + K, result_symbol = k\<rparr>))"
  using try_consume_hashes_from_run [of 0 h R K n k] assms
  by (simp add: try_consume_hashes_def)

lemma try_consume_hashes_from_enough:
  fixes i h :: "32 word"
  assumes "i \<le> h" and "unat h - unat i = m"
  shows "try_consume_hashes_from \<lparr>rest = replicate m HASH @ S, advances = n, result_symbol = k\<rparr> h i
           = (True, \<lparr>rest = S, advances = n + m, result_symbol = k\<rparr>)"
  using assms
proof (induction m arbitrary: i n)
  case 0
  then have "\<not> i < h"
    by (simp add: word_less_nat_alt)
  then show ?case
    by (subst try_consume_hashes_from.simps) simp
next
  case (Suc m)
  then have lt: "i < h"
    by (simp add: word_less_nat_alt)
  have le: "i + 1 \<le> h" using lt by (rule inc_le)
  have u: "unat h - unat (i + 1) = m"
    using Suc.prems(2) by (simp add: unat_inc [OF lt])
  have "try_consume_hashes_from \<lparr>rest = replicate (Suc m) HASH @ S, advances = n, result_symbol = k\<rparr> h i
          = try_consume_hashes_from \<lparr>rest = replicate m HASH @ S, advances = Suc n, result_symbol = k\<rparr> h (i + 1)"
    using lt
    by (subst try_consume_hashes_from.simps) (simp add: lookahead_def advance_def)
  also note Suc.IH [OF le u, of "Suc n"]
  finally show ?case by simp
qed

lemma try_consume_hashes_enough:
  "try_consume_hashes \<lparr>rest = replicate (unat h) HASH @ S, advances = n, result_symbol = k\<rparr> h
     = (True, \<lparr>rest = S, advances = n + unat h, result_symbol = k\<rparr>)"
  using try_consume_hashes_from_enough [of 0 h "unat h" S n k]
  by (simp add: try_consume_hashes_def)

lemma try_consume_hashes_short:
  assumes "K < unat h" and "R = [] \<or> hd R \<noteq> HASH"
  shows "try_consume_hashes \<lparr>rest = replicate K HASH @ R, advances = n, result_symbol = k\<rparr> h
           = (False, \<lparr>rest = R, advances = n + K, result_symbol = k\<rparr>)"
  using try_consume_hashes_run [OF assms(2), of K n k h] assms(1) by simp

lemma try_consume_hashes_from_success:
  "try_consume_hashes_from lx h i = (True, lx') \<Longrightarrow> i \<le> h \<Longrightarrow>
   rest lx = replicate (unat h - unat i) HASH @ rest lx'"
proof (induction lx h i rule: try_consume_hashes_from.induct)
  case (1 lx hashes i)
  show ?case
  proof (cases "i < hashes")
    case False
    then have "i = hashes" using "1.prems"(2) by simp
    moreover have "lx' = lx"
      using "1.prems"(1) False by (subst (asm) try_consume_hashes_from.simps) simp
    ultimately show ?thesis by simp
  next
    case True
    have la: "lookahead lx = HASH"
      using "1.prems"(1) True
      by (subst (asm) try_consume_hashes_from.simps) (auto split: if_splits)
    then have "try_consume_hashes_from (advance lx) hashes (i + 1) = (True, lx')"
      using "1.prems"(1) True by (subst (asm) try_consume_hashes_from.simps) simp
    moreover have "i + 1 \<le> hashes" using True by (rule inc_le)
    ultimately have "rest (advance lx) = replicate (unat hashes - unat (i + 1)) HASH @ rest lx'"
      using "1.IH" True la by simp
    moreover have "rest lx = HASH # rest (advance lx)"
      using la by (rule rest_lookahead_advance) simp
    moreover have "unat hashes - unat i = Suc (unat hashes - unat (i + 1))"
      using True unat_inc [OF True] by (simp add: word_less_nat_alt)
    ultimately show ?thesis by simp
  qed
qed

lemma try_consume_hashes_success:
  "try_consume_hashes lx h = (True, lx') \<Longrightarrow> rest lx = replicate (unat h) HASH @ rest lx'"
  using try_consume_hashes_from_success [of lx h 0 lx'] by (simp add: try_consume_hashes_def)

lemma count_hashes_run:
  assumes "R = [] \<or> hd R \<noteq> HASH"
  shows "count_hashes \<lparr>rest = replicate M HASH @ R, advances = n, result_symbol = k\<rparr> h
           = (h + of_nat M, \<lparr>rest = R, advances = n + M, result_symbol = k\<rparr>)"
proof (induction M arbitrary: n h)
  case 0
  show ?case
    using assms by (subst count_hashes.simps) (cases R; simp add: lookahead_def)
next
  case (Suc M)
  have "count_hashes \<lparr>rest = replicate (Suc M) HASH @ R, advances = n, result_symbol = k\<rparr> h
          = count_hashes \<lparr>rest = replicate M HASH @ R, advances = Suc n, result_symbol = k\<rparr> (h + 1)"
    by (subst count_hashes.simps) (simp add: lookahead_def advance_def)
  also note Suc.IH [of "Suc n" "h + 1"]
  finally show ?case by (simp add: add.assoc add.commute)
qed

section \<open>Single-line raw strings\<close>

lemma single_line_skip_text:
  "single_line_text B \<Longrightarrow>
   scan_raw_string_single_line \<lparr>rest = B @ R, advances = n, result_symbol = k\<rparr> h
     = scan_raw_string_single_line \<lparr>rest = R, advances = n + length B, result_symbol = k\<rparr> h"
proof (induction B arbitrary: n)
  case Nil
  show ?case by simp
next
  case (Cons c B)
  then have c: "c \<noteq> QUOTE" "c \<noteq> NUL" "\<not> is_newline c" and B: "single_line_text B"
    by (simp_all add: single_line_text_def)
  have "scan_raw_string_single_line \<lparr>rest = (c # B) @ R, advances = n, result_symbol = k\<rparr> h
          = scan_raw_string_single_line \<lparr>rest = B @ R, advances = Suc n, result_symbol = k\<rparr> h"
    using c
    by (subst scan_raw_string_single_line.simps)
       (simp add: scan_raw_string_single_line_iter_def lookahead_def eof_def advance_def)
  also note Cons.IH [OF B, of "Suc n"]
  finally show ?case by simp
qed

lemma single_line_close:
  "scan_raw_string_single_line
     \<lparr>rest = QUOTE # replicate (unat h) HASH @ S, advances = n, result_symbol = k\<rparr> h
   = (True, \<lparr>rest = S, advances = Suc n + unat h, result_symbol = RAW_STRING\<rparr>)"
  by (subst scan_raw_string_single_line.simps)
     (simp add: scan_raw_string_single_line_iter_def lookahead_def eof_def advance_def
                is_newline_def try_consume_hashes_enough)

lemma single_line_short_close:
  assumes "K < unat h" and "R = [] \<or> hd R \<noteq> HASH"
  shows "scan_raw_string_single_line
           \<lparr>rest = QUOTE # replicate K HASH @ R, advances = n, result_symbol = k\<rparr> h
         = scan_raw_string_single_line
             \<lparr>rest = R, advances = Suc n + K, result_symbol = k\<rparr> h"
  by (subst scan_raw_string_single_line.simps)
     (simp add: scan_raw_string_single_line_iter_def lookahead_def eof_def advance_def
                is_newline_def try_consume_hashes_short [OF assms])

lemma scan_raw_string_open_single_line:
  assumes "1 \<le> M" and "c \<noteq> QUOTE"
  shows "scan_raw_string \<lparr>rest = replicate M HASH @ QUOTE # c # S, advances = n, result_symbol = k\<rparr>
           = scan_raw_string_single_line
               \<lparr>rest = c # S, advances = n + M + 1, result_symbol = k\<rparr> (of_nat M)"
proof -
  obtain M' where M: "M = Suc M'"
    using assms(1) by (cases M) simp_all
  have "count_hashes \<lparr>rest = replicate M HASH @ QUOTE # c # S, advances = n, result_symbol = k\<rparr> 0
          = (of_nat M, \<lparr>rest = QUOTE # c # S, advances = n + M, result_symbol = k\<rparr>)"
    using count_hashes_run [of "QUOTE # c # S" M n k 0] by simp
  then show ?thesis
    using assms(2) by (simp add: scan_raw_string_def M lookahead_def advance_def)
qed

text \<open>
  Claim C1, as the code has it. The entry point hands an input to the raw-string scanner
  only when its lookahead is \<open>#\<close>, so the hash count is at least 1; the counter is a
  32-bit unsigned, so the count is below \<open>2 ^ 32\<close>. For such a count \<open>M\<close>, a body \<open>B\<close> that
  is not empty and has no quote, no newline and no 0 in it (\<open>abc\<close> is one), and the raw-string
  kind valid: the input \<open>M\<close> hashes, quote, \<open>B\<close>, quote, \<open>K\<close> hashes is recognized as one
  raw-string token that spans the whole input if and only if \<open>K = M\<close>. With a closing run
  shorter than \<open>M\<close> the quote and the run are taken as body and the body loop goes on at
  the code point after the run (so it fails when the input ends there); with a closing
  run of at least \<open>M\<close> hashes the token ends after the first \<open>M\<close> of them.
\<close>

theorem raw_string_single_line_hash_match:
  assumes "vs RAW_STRING" and "1 \<le> M" and "M < 2 ^ 32"
      and "B \<noteq> []" and "single_line_text B"
  shows
   "(fst (scan vs \<lparr>rest = replicate M HASH @ QUOTE # B @ QUOTE # replicate K HASH,
                    advances = n, result_symbol = k\<rparr>) \<and>
     rest (snd (scan vs \<lparr>rest = replicate M HASH @ QUOTE # B @ QUOTE # replicate K HASH,
                    advances = n, result_symbol = k\<rparr>)) = [] \<and>
     result_symbol (snd (scan vs \<lparr>rest = replicate M HASH @ QUOTE # B @ QUOTE # replicate K HASH,
                    advances = n, result_symbol = k\<rparr>)) = RAW_STRING
       \<longleftrightarrow> K = M) \<and>
    (K1 < M \<and> (R = [] \<or> hd R \<noteq> HASH) \<longrightarrow>
       scan vs \<lparr>rest = replicate M HASH @ QUOTE # B @ QUOTE # replicate K1 HASH @ R,
                advances = n, result_symbol = k\<rparr>
         = scan_raw_string_single_line
             \<lparr>rest = R, advances = n + M + length B + 2 + K1, result_symbol = k\<rparr> (of_nat M)) \<and>
    (K1 < M \<longrightarrow>
       scan vs \<lparr>rest = replicate M HASH @ QUOTE # B @ QUOTE # replicate K1 HASH,
                advances = n, result_symbol = k\<rparr>
         = (False, \<lparr>rest = [], advances = n + M + length B + 2 + K1, result_symbol = k\<rparr>)) \<and>
    (M \<le> K2 \<longrightarrow>
       scan vs \<lparr>rest = replicate M HASH @ QUOTE # B @ QUOTE # replicate K2 HASH @ R',
                advances = n, result_symbol = k\<rparr>
         = (True, \<lparr>rest = replicate (K2 - M) HASH @ R',
                   advances = n + M + length B + 2 + M, result_symbol = RAW_STRING\<rparr>))"
proof -
  obtain M' where M: "M = Suc M'"
    using assms(2) by (cases M) simp_all
  obtain c B' where B: "B = c # B'"
    using assms(4) by (cases B) simp_all
  have c: "c \<noteq> QUOTE"
    using assms(5) by (simp add: B single_line_text_def)
  have u: "unat (of_nat M :: 32 word) = M"
    using assms(3) by (simp add: unat_of_nat)
  have start: "scan vs \<lparr>rest = replicate M HASH @ QUOTE # B @ QUOTE # S, advances = n, result_symbol = k\<rparr>
      = scan_raw_string_single_line
          \<lparr>rest = QUOTE # S, advances = n + M + 1 + length B, result_symbol = k\<rparr> (of_nat M)"
    for S
  proof -
    have "scan vs \<lparr>rest = replicate M HASH @ QUOTE # B @ QUOTE # S, advances = n, result_symbol = k\<rparr>
      = scan_raw_string \<lparr>rest = replicate M HASH @ QUOTE # B @ QUOTE # S, advances = n, result_symbol = k\<rparr>"
      using assms(1) by (simp add: tree_sitter_kdl_external_scanner_scan_def M lookahead_def)
    also have "\<dots> = scan_raw_string_single_line
        \<lparr>rest = B @ QUOTE # S, advances = n + M + 1, result_symbol = k\<rparr> (of_nat M)"
      using scan_raw_string_open_single_line [OF assms(2) c, of "B' @ QUOTE # S" n k]
      by (simp add: B)
    also note single_line_skip_text [OF assms(5)]
    finally show ?thesis .
  qed
  have long: "scan vs \<lparr>rest = replicate M HASH @ QUOTE # B @ QUOTE # replicate K HASH @ S,
                advances = n, result_symbol = k\<rparr>
         = (True, \<lparr>rest = replicate (K - M) HASH @ S,
                   advances = n + M + length B + 2 + M, result_symbol = RAW_STRING\<rparr>)"
    if "M \<le> K" for S K
  proof -
    have "replicate K HASH @ S = replicate M HASH @ replicate (K - M) HASH @ S"
      using that by (simp add: replicate_add [symmetric])
    moreover have "scan_raw_string_single_line
        \<lparr>rest = QUOTE # replicate M HASH @ (replicate (K - M) HASH @ S), advances = n + M + 1 + length B,
          result_symbol = k\<rparr> (of_nat M)
        = (True, \<lparr>rest = replicate (K - M) HASH @ S,
                   advances = n + M + length B + 2 + M, result_symbol = RAW_STRING\<rparr>)"
      using single_line_close [of "of_nat M" "replicate (K - M) HASH @ S" "n + M + 1 + length B" k]
      by (simp add: u)
    ultimately show ?thesis
      using start [of "replicate K HASH @ S"] by simp
  qed
  have short: "scan vs \<lparr>rest = replicate M HASH @ QUOTE # B @ QUOTE # replicate K HASH @ S,
                advances = n, result_symbol = k\<rparr>
         = scan_raw_string_single_line
             \<lparr>rest = S, advances = n + M + length B + 2 + K, result_symbol = k\<rparr> (of_nat M)"
    if "K < M" "S = [] \<or> hd S \<noteq> HASH" for S K
    using start [of "replicate K HASH @ S"]
      single_line_short_close [of K "of_nat M" S "n + M + 1 + length B" k] that
    by (simp add: u)
  have fail: "scan vs \<lparr>rest = replicate M HASH @ QUOTE # B @ QUOTE # replicate K HASH,
                advances = n, result_symbol = k\<rparr>
         = (False, \<lparr>rest = [], advances = n + M + length B + 2 + K, result_symbol = k\<rparr>)"
    if "K < M" for K
    using short [of K "[]"] that by (simp add: single_line_NUL lookahead_def)
  let ?r = "scan vs \<lparr>rest = replicate M HASH @ QUOTE # B @ QUOTE # replicate K HASH,
                advances = n, result_symbol = k\<rparr>"
  have iff: "(fst ?r \<and> rest (snd ?r) = [] \<and> result_symbol (snd ?r) = RAW_STRING) \<longleftrightarrow> K = M"
  proof (cases "K < M")
    case True
    then show ?thesis using fail by simp
  next
    case False
    then have "M \<le> K" by simp
    from long [OF this, of "[]"] False show ?thesis by auto
  qed
  show ?thesis
    using iff short [of K1 R] fail [of K1] long [of K2 R'] by blast
qed

theorem raw_string_single_line_hash_match_witness:
  "(\<lambda>k. True) RAW_STRING \<and> (1::nat) \<le> 2 \<and> (2::nat) < 2 ^ 32 \<and>
   single_line_text [0x61, 0x62, 0x63] \<and>
   fst (scan (\<lambda>k. True) \<lparr>rest = [HASH, HASH, QUOTE, 0x61, 0x62, 0x63, QUOTE, HASH, HASH],
                      advances = 0, result_symbol = EOF\<rparr>) \<and>
   rest (snd (scan (\<lambda>k. True) \<lparr>rest = [HASH, HASH, QUOTE, 0x61, 0x62, 0x63, QUOTE, HASH, HASH],
                      advances = 0, result_symbol = EOF\<rparr>)) = [] \<and>
   scan (\<lambda>k. True) \<lparr>rest = [HASH, HASH, QUOTE, 0x61, 0x62, 0x63, QUOTE, HASH],
                      advances = 0, result_symbol = EOF\<rparr>
     = (False, \<lparr>rest = [], advances = 8, result_symbol = EOF\<rparr>) \<and>
   scan (\<lambda>k. True) \<lparr>rest = [HASH, HASH, QUOTE, 0x61, 0x62, 0x63, QUOTE, HASH, 0x78, QUOTE, HASH, HASH],
                      advances = 0, result_symbol = EOF\<rparr>
     = (True, \<lparr>rest = [], advances = 12, result_symbol = RAW_STRING\<rparr>) \<and>
   scan (\<lambda>k. True) \<lparr>rest = [HASH, HASH, QUOTE, 0x61, 0x62, 0x63, QUOTE, HASH, HASH, HASH],
                      advances = 0, result_symbol = EOF\<rparr>
     = (True, \<lparr>rest = [HASH], advances = 9, result_symbol = RAW_STRING\<rparr>)"
  using raw_string_single_line_hash_match [of "\<lambda>k. True" 2 "[0x61, 0x62, 0x63]" 2 0 EOF 1
          "[0x78, QUOTE, HASH, HASH]" 3 "[]"]
  by (simp add: single_line_text_def is_newline_def replicate_numeral_unfold
        scan_raw_string_single_line.simps scan_raw_string_single_line_iter_def
        try_consume_hashes_def try_consume_hashes_from.simps
        lookahead_def advance_def eof_def)

text \<open>
  With no hash the claim fails: the input \<open>"abc"\<close> has equal opening and closing hash
  counts, 0 and 0, and scan, with the raw-string kind valid, does not recognize it.
\<close>

theorem raw_string_zero_hashes_counterexample:
  "\<not> fst (scan ((=) RAW_STRING)
            \<lparr>rest = replicate 0 HASH @ [QUOTE, 0x61, 0x62, 0x63, QUOTE] @ replicate 0 HASH,
              advances = 0, result_symbol = RAW_STRING\<rparr>)"
  by (simp add: tree_sitter_kdl_external_scanner_scan_def lookahead_def)

section \<open>Single-line raw strings do not span lines\<close>

lemma no_close_suffix: "no_close N (xs @ ys) \<Longrightarrow> no_close N ys"
  by (induction xs) simp_all

lemma hash_run_split:
  "\<exists>K cs'. cs = replicate K HASH @ cs' \<and> (cs' = [] \<or> hd cs' \<noteq> HASH)"
proof (induction cs)
  case Nil
  show ?case by simp
next
  case (Cons c cs)
  show ?case
  proof (cases "c = HASH")
    case False
    then have "c # cs = replicate 0 HASH @ (c # cs) \<and> (c # cs = [] \<or> hd (c # cs) \<noteq> HASH)"
      by simp
    then show ?thesis by blast
  next
    case True
    obtain K cs' where "cs = replicate K HASH @ cs'" "cs' = [] \<or> hd cs' \<noteq> HASH"
      using Cons.IH by blast
    then have "c # cs = replicate (Suc K) HASH @ cs' \<and> (cs' = [] \<or> hd cs' \<noteq> HASH)"
      using True by simp
    then show ?thesis by blast
  qed
qed

lemma single_line_no_close:
  assumes "no_close (unat h) B" and "R = [] \<or> hd R \<noteq> HASH"
      and "\<And>n. \<not> fst (scan_raw_string_single_line \<lparr>rest = R, advances = n, result_symbol = k\<rparr> h)"
  shows "\<not> fst (scan_raw_string_single_line \<lparr>rest = B @ R, advances = n, result_symbol = k\<rparr> h)"
  using assms(1)
proof (induction B arbitrary: n rule: length_induct)
  case (1 B)
  show ?case
  proof (cases B)
    case Nil
    then show ?thesis using assms(3) by simp
  next
    case (Cons c B')
    let ?lx = "\<lparr>rest = B @ R, advances = n, result_symbol = k\<rparr>"
    have B': "no_close (unat h) B'"
      using "1.prems" Cons by simp
    show ?thesis
    proof (cases "c = NUL \<or> is_newline c")
      case True
      then have "scan_raw_string_single_line ?lx h = (False, ?lx)"
        by (subst scan_raw_string_single_line.simps)
           (auto simp: Cons scan_raw_string_single_line_iter_def lookahead_def eof_def)
      then show ?thesis by simp
    next
      case False
      show ?thesis
      proof (cases "c = QUOTE")
        case nq: False
        have "scan_raw_string_single_line ?lx h
                = scan_raw_string_single_line
                    \<lparr>rest = B' @ R, advances = Suc n, result_symbol = k\<rparr> h"
          using False nq
          by (subst scan_raw_string_single_line.simps)
             (simp add: Cons scan_raw_string_single_line_iter_def lookahead_def eof_def advance_def)
        moreover have "\<not> fst (scan_raw_string_single_line
                    \<lparr>rest = B' @ R, advances = Suc n, result_symbol = k\<rparr> h)"
          using "1.IH" B' Cons by simp
        ultimately show ?thesis by simp
      next
        case q: True
        obtain K B'' where split: "B' = replicate K HASH @ B''" "B'' = [] \<or> hd B'' \<noteq> HASH"
          using hash_run_split [of B'] by blast
        have "take (unat h) B' \<noteq> replicate (unat h) HASH"
          using "1.prems" Cons q by simp
        then have K: "K < unat h"
          using split(1) by (cases "unat h \<le> K") (auto simp: min_def)
        have nh: "B'' @ R = [] \<or> hd (B'' @ R) \<noteq> HASH"
          using split(2) assms(2) by (cases B'') auto
        have "scan_raw_string_single_line ?lx h
                = scan_raw_string_single_line
                    \<lparr>rest = B'' @ R, advances = Suc n + K, result_symbol = k\<rparr> h"
          using single_line_short_close [OF K nh, of n k] by (simp add: Cons q split(1))
        moreover have "\<not> fst (scan_raw_string_single_line
                    \<lparr>rest = B'' @ R, advances = Suc n + K, result_symbol = k\<rparr> h)"
        proof -
          have "no_close (unat h) B''"
            using B' split(1) by (auto dest: no_close_suffix)
          moreover have "length B'' < length B"
            using Cons split(1) by simp
          ultimately show ?thesis using "1.IH" by blast
        qed
        ultimately show ?thesis by simp
      qed
    qed
  qed
qed

lemma single_line_body_stops_at_newline:
  assumes "no_close (unat h) B" and "is_newline nl"
  shows "\<not> fst (scan_raw_string_single_line
                  \<lparr>rest = B @ nl # R, advances = n, result_symbol = k\<rparr> h)"
proof -
  have "\<not> fst (scan_raw_string_single_line \<lparr>rest = nl # R, advances = m, result_symbol = k\<rparr> h)"
    for m
    using assms(2)
    by (subst scan_raw_string_single_line.simps)
       (simp add: scan_raw_string_single_line_iter_def lookahead_def eof_def)
  moreover have "nl # R = [] \<or> hd (nl # R) \<noteq> HASH"
    using assms(2) by (auto simp: is_newline_def split: if_splits)
  ultimately show ?thesis
    using assms(1) single_line_no_close [of h B "nl # R" k n] by blast
qed

lemma single_line_body_stops_at_end:
  assumes "no_close (unat h) B"
  shows "\<not> fst (scan_raw_string_single_line \<lparr>rest = B, advances = n, result_symbol = k\<rparr> h)"
proof -
  have "\<not> fst (scan_raw_string_single_line \<lparr>rest = [], advances = m, result_symbol = k\<rparr> h)"
    for m
    by (simp add: single_line_NUL lookahead_def)
  then show ?thesis
    using assms single_line_no_close [of h B "[]" k n] by simp
qed

lemma scan_stops_at_newline_in_body:
  assumes "vs RAW_STRING" and "1 \<le> M" and "M < 2 ^ 32"
      and "no_close M B" and "B = [] \<or> hd B \<noteq> QUOTE" and "is_newline nl"
  shows "\<not> fst (scan vs \<lparr>rest = replicate M HASH @ QUOTE # B @ nl # R, advances = n,
                          result_symbol = k\<rparr>)"
proof -
  obtain M' where M: "M = Suc M'"
    using assms(2) by (cases M) simp_all
  have u: "unat (of_nat M :: 32 word) = M"
    using assms(3) by (simp add: unat_of_nat)
  obtain c S where S: "B @ nl # R = c # S" and c: "c \<noteq> QUOTE"
    using assms(5,6) by (cases B) (auto dest: is_newline_not_QUOTE)
  have "scan vs \<lparr>rest = replicate M HASH @ QUOTE # B @ nl # R, advances = n, result_symbol = k\<rparr>
      = scan_raw_string_single_line
          \<lparr>rest = B @ nl # R, advances = n + M + 1, result_symbol = k\<rparr> (of_nat M)"
    using assms(1) scan_raw_string_open_single_line [OF assms(2) c, of S n k]
    by (simp add: M S scan_at_hash)
  moreover have "\<not> fst (scan_raw_string_single_line
          \<lparr>rest = B @ nl # R, advances = n + M + 1, result_symbol = k\<rparr> (of_nat M))"
    using single_line_body_stops_at_newline [of "of_nat M" B nl R "n + M + 1" k] assms(4,6)
    by (simp add: u)
  ultimately show ?thesis by simp
qed

text \<open>
  Claim C5. The single-line body scanner fails on every input in which a newline comes
  before any closing delimiter (a quote followed by as many hashes as the opening had),
  and it fails when the input ends before any closing delimiter. So does a whole scan
  of a raw string opened by \<open>M\<close> hashes and one quote (\<open>M\<close> at least 1, below \<open>2 ^ 32\<close>)
  whose body, not itself beginning with a quote, has a newline before any closing
  delimiter.
\<close>

theorem single_line_newline_fails:
  "(no_close (unat h) B \<and> is_newline nl \<longrightarrow>
      \<not> fst (scan_raw_string_single_line
               \<lparr>rest = B @ nl # R, advances = n, result_symbol = k\<rparr> h)) \<and>
   (no_close (unat h) B' \<longrightarrow>
      \<not> fst (scan_raw_string_single_line
               \<lparr>rest = B', advances = n, result_symbol = k\<rparr> h)) \<and>
   (vs RAW_STRING \<and> 1 \<le> M \<and> M < 2 ^ 32 \<and> no_close M B'' \<and> (B'' = [] \<or> hd B'' \<noteq> QUOTE) \<and>
    is_newline nl' \<longrightarrow>
      \<not> fst (scan vs \<lparr>rest = replicate M HASH @ QUOTE # B'' @ nl' # R', advances = n,
                        result_symbol = k\<rparr>))"
  using single_line_body_stops_at_newline [of h B nl R n k]
    single_line_body_stops_at_end [of h B' n k]
    scan_stops_at_newline_in_body [of vs M B'' nl' R' n k]
  by blast

theorem single_line_newline_fails_witness:
  "no_close (unat (2 :: 32 word)) [0x61, QUOTE, HASH, 0x62] \<and> is_newline LF \<and>
   \<not> fst (scan_raw_string_single_line
            \<lparr>rest = [0x61, QUOTE, HASH, 0x62] @ LF # [QUOTE, HASH, HASH], advances = 3,
              result_symbol = EOF\<rparr> 2) \<and>
   no_close (unat (2 :: 32 word)) [0x61, QUOTE, HASH] \<and>
   \<not> fst (scan_raw_string_single_line
            \<lparr>rest = [0x61, QUOTE, HASH], advances = 3, result_symbol = EOF\<rparr> 2) \<and>
   (\<lambda>k. True) RAW_STRING \<and> (1 :: nat) \<le> 2 \<and> (2 :: nat) < 2 ^ 32 \<and>
   no_close 2 [0x61, QUOTE, HASH, 0x62] \<and> is_newline CR \<and>
   \<not> fst (scan (\<lambda>k. True)
            \<lparr>rest = [HASH, HASH, QUOTE, 0x61, QUOTE, HASH, 0x62, CR, LF, QUOTE, HASH, HASH],
              advances = 3, result_symbol = EOF\<rparr>)"
  using single_line_newline_fails [of 2 "[0x61, QUOTE, HASH, 0x62]" LF "[QUOTE, HASH, HASH]"
          3 EOF "[0x61, QUOTE, HASH]" "\<lambda>k. True" 2 "[0x61, QUOTE, HASH, 0x62]" CR
          "[LF, QUOTE, HASH, HASH]"]
  by (simp add: is_newline_def replicate_numeral_unfold)

section \<open>Nested comments\<close>

lemma depth_member: "p \<in> set ps \<Longrightarrow> depth p \<le> foldr max (map depth ps) 0"
  by (induction ps) auto





lemma comment_loop_text:
  assumes "c \<noteq> NUL" "c \<noteq> STAR" "c \<noteq> SLASH"
  shows "scan_multiline_comment_loop \<lparr>rest = c # R, advances = n, result_symbol = k\<rparr> a d
           = scan_multiline_comment_loop \<lparr>rest = R, advances = Suc n, result_symbol = k\<rparr> False d"
  using assms
  by (subst scan_multiline_comment_loop.simps)
     (simp add: scan_multiline_comment_iter_def lookahead_def advance_def)

lemma comment_loop_open:
  "scan_multiline_comment_loop \<lparr>rest = SLASH # STAR # R, advances = n, result_symbol = k\<rparr> False d
     = scan_multiline_comment_loop \<lparr>rest = R, advances = n + 2, result_symbol = k\<rparr> False (d + 1)"
  by (subst scan_multiline_comment_loop.simps)
     (simp add: scan_multiline_comment_iter_def lookahead_def advance_def)

lemma comment_loop_star:
  "scan_multiline_comment_loop \<lparr>rest = STAR # R, advances = n, result_symbol = k\<rparr> a d
     = scan_multiline_comment_loop \<lparr>rest = R, advances = Suc n, result_symbol = k\<rparr> True d"
  by (subst scan_multiline_comment_loop.simps)
     (simp add: scan_multiline_comment_iter_def lookahead_def advance_def)

lemma comment_loop_slash_after_star:
  "scan_multiline_comment_loop \<lparr>rest = SLASH # R, advances = n, result_symbol = k\<rparr> True d
     = (if d - 1 = 0
        then (True, \<lparr>rest = R, advances = Suc n, result_symbol = MULTI_LINE_COMMENT\<rparr>)
        else scan_multiline_comment_loop
               \<lparr>rest = R, advances = Suc n, result_symbol = k\<rparr> False (d - 1))"
  by (subst scan_multiline_comment_loop.simps)
     (simp add: scan_multiline_comment_iter_def lookahead_def advance_def)

lemma comment_loop_close:
  "scan_multiline_comment_loop \<lparr>rest = STAR # SLASH # R, advances = n, result_symbol = k\<rparr> a d
     = (if d - 1 = 0
        then (True, \<lparr>rest = R, advances = n + 2, result_symbol = MULTI_LINE_COMMENT\<rparr>)
        else scan_multiline_comment_loop
               \<lparr>rest = R, advances = n + 2, result_symbol = k\<rparr> False (d - 1))"
  by (simp add: comment_loop_star comment_loop_slash_after_star)

lemma scan_multiline_comment_open:
  "scan_multiline_comment \<lparr>rest = SLASH # STAR # R, advances = n, result_symbol = k\<rparr>
     = scan_multiline_comment_loop \<lparr>rest = R, advances = n + 2, result_symbol = k\<rparr> False 1"
  by (simp add: scan_multiline_comment_def lookahead_def advance_def)

lemma comment_iter_success:
  "scan_multiline_comment_iter lx a d = Inl (True, lx') \<longleftrightarrow>
     lookahead lx = SLASH \<and> a \<and> d - 1 = 0 \<and>
     lx' = (advance lx)\<lparr>result_symbol := MULTI_LINE_COMMENT\<rparr>"
  by (auto simp: scan_multiline_comment_iter_def Let_def)





lemma flatten_nonempty: "flatten p \<noteq> []"
  by (cases p) simp_all

lemma first_code_point_hd:
  "\<exists>cs. concat (map flatten ps) @ f # R = first_code_point ps f # cs"
proof (cases ps)
  case Nil
  then show ?thesis by (simp add: first_code_point_def)
next
  case (Cons p ps')
  then show ?thesis by (cases p) (simp_all add: first_code_point_def)
qed

lemma comment_loop_slash_text:
  assumes "c \<noteq> STAR"
  shows "scan_multiline_comment_loop \<lparr>rest = SLASH # c # R, advances = n, result_symbol = k\<rparr> False d
           = scan_multiline_comment_loop
               \<lparr>rest = c # R, advances = Suc n, result_symbol = k\<rparr> False d"
  using assms
  by (subst scan_multiline_comment_loop.simps)
     (simp add: scan_multiline_comment_iter_def lookahead_def advance_def)

lemma comment_loop_skip_well_nested:
  assumes "well_nested ps f" and "d \<noteq> 0"
      and "unat d + foldr max (map depth ps) 0 < 2 ^ 32"
      and "a \<longrightarrow> first_code_point ps f \<noteq> SLASH"
  shows "\<exists>a'. scan_multiline_comment_loop
                \<lparr>rest = concat (map flatten ps) @ f # R, advances = n, result_symbol = k\<rparr> a d
              = scan_multiline_comment_loop
                  \<lparr>rest = f # R, advances = n + length (concat (map flatten ps)),
                    result_symbol = k\<rparr> a' d"
  using assms
proof (induction "length (concat (map flatten ps))" arbitrary: ps f d a n R rule: less_induct)
  case less
  show ?case
  proof (cases ps)
    case Nil
    then show ?thesis by auto
  next
    case (Cons p ps')
    obtain cs where cs: "concat (map flatten ps') @ f # R = first_code_point ps' f # cs"
      using first_code_point_hd by blast
    have wf': "well_nested ps' f"
      using less.prems(1) Cons by (cases p) simp_all
    have bound': "unat d + foldr max (map depth ps') 0 < 2 ^ 32"
      using less.prems(3) Cons by simp
    have shorter: "length (concat (map flatten ps')) < length (concat (map flatten ps))"
      using Cons flatten_nonempty [of p] by (cases "flatten p") simp_all
    show ?thesis
    proof (cases p)
      case (Text c)
      have c0: "c \<noteq> NUL" using less.prems(1) Cons Text by simp
      have tail: "\<exists>a'. scan_multiline_comment_loop
                \<lparr>rest = concat (map flatten ps') @ f # R, advances = Suc n, result_symbol = k\<rparr> b d
              = scan_multiline_comment_loop
                  \<lparr>rest = f # R, advances = n + length (concat (map flatten ps)),
                    result_symbol = k\<rparr> a' d"
        if "b \<longrightarrow> first_code_point ps' f \<noteq> SLASH" for b
        using less.hyps [OF shorter wf' less.prems(2) bound' that, of R "Suc n"] Cons Text
        by simp
      consider "c = STAR" | "c = SLASH" | "c \<noteq> STAR" "c \<noteq> SLASH" by blast
      then show ?thesis
      proof cases
        case 1
        then have "first_code_point ps' f \<noteq> SLASH"
          using less.prems(1) Cons Text by simp
        then show ?thesis
          using tail [of True] by (simp add: Cons Text 1 comment_loop_star)
      next
        case 2
        then have a: "\<not> a"
          using less.prems(4) Cons Text by (simp add: first_code_point_def)
        have "first_code_point ps' f \<noteq> STAR"
          using less.prems(1) Cons Text 2 by simp
        then show ?thesis
          using tail [of False] a by (simp add: Cons Text 2 cs comment_loop_slash_text)
      next
        case 3
        then show ?thesis
          using tail [of False] c0 by (simp add: Cons Text comment_loop_text)
      qed
    next
      case (Block qs)
      let ?mq = "length (concat (map flatten qs))"
      have a: "\<not> a"
        using less.prems(4) Cons Block by (simp add: first_code_point_def)
      have b: "unat d + 1 < 2 ^ 32"
        using less.prems(3) Cons Block by simp
      note u = unat_inc_bound [OF b]
      have wfq: "well_nested qs STAR"
        using less.prems(1) Cons Block by simp
      have boundq: "unat (d + 1) + foldr max (map depth qs) 0 < 2 ^ 32"
        using less.prems(3) Cons Block u(1) by simp
      have shorterq: "length (concat (map flatten qs)) < length (concat (map flatten ps))"
        using Cons Block by simp
      obtain a' where inner: "scan_multiline_comment_loop
            \<lparr>rest = concat (map flatten qs) @ STAR # SLASH # concat (map flatten ps') @ f # R,
              advances = n + 2, result_symbol = k\<rparr> False (d + 1)
          = scan_multiline_comment_loop
            \<lparr>rest = STAR # SLASH # concat (map flatten ps') @ f # R,
              advances = n + 2 + ?mq, result_symbol = k\<rparr> a' (d + 1)"
        using less.hyps [OF shorterq wfq u(2) boundq, of False
                "SLASH # concat (map flatten ps') @ f # R" "n + 2"]
        by auto
      obtain a'' where outer: "scan_multiline_comment_loop
            \<lparr>rest = concat (map flatten ps') @ f # R,
              advances = n + 2 + ?mq + 2, result_symbol = k\<rparr> False d
          = scan_multiline_comment_loop
            \<lparr>rest = f # R, advances = n + 2 + ?mq + 2 + length (concat (map flatten ps')),
              result_symbol = k\<rparr> a'' d"
        using less.hyps [OF shorter wf' less.prems(2) bound', of False R "n + 2 + ?mq + 2"]
        by auto
      have "scan_multiline_comment_loop
                \<lparr>rest = concat (map flatten ps) @ f # R, advances = n, result_symbol = k\<rparr> a d
          = scan_multiline_comment_loop
            \<lparr>rest = concat (map flatten qs) @ STAR # SLASH # concat (map flatten ps') @ f # R,
              advances = n + 2, result_symbol = k\<rparr> False (d + 1)"
        using a by (simp add: Cons Block comment_loop_open)
      also note inner
      also have "scan_multiline_comment_loop
            \<lparr>rest = STAR # SLASH # concat (map flatten ps') @ f # R,
              advances = n + 2 + ?mq, result_symbol = k\<rparr> a' (d + 1)
          = scan_multiline_comment_loop
            \<lparr>rest = concat (map flatten ps') @ f # R,
              advances = n + 2 + ?mq + 2, result_symbol = k\<rparr> False d"
        using less.prems(2) by (simp add: comment_loop_close)
      also note outer
      also have "n + 2 + ?mq + 2 + length (concat (map flatten ps'))
                   = n + length (concat (map flatten ps))"
        by (simp add: Cons Block)
      finally show ?thesis by blast
    qed
  qed
qed

text \<open>
  Claim C2, as the code has it. For every nesting depth \<open>dd\<close> (at least 1 for a block;
  below \<open>2 ^ 32\<close>, as the depth of every input that fits the 32-bit positions of the lexer
  is) and every well-nested comment of that depth whose text has no 0 in it (the text may
  hold \<open>*\<close> and \<open>/\<close> wherever they are not part of a delimiter), scan, with the comment
  kind valid, succeeds with the multi-line-comment kind and consumes exactly the code
  points from the outermost \<open>/*\<close> through its matching \<open>*/\<close>: what follows the comment is
  what is left. The depth counter is 1 after the opening \<open>/*\<close>; a \<open>/*\<close> met by the loop
  adds 1 to it; a \<open>*/\<close> subtracts 1 from it, and the scan is complete when that gives 0;
  and an iteration returns success in that case only.
\<close>

theorem nested_comment_scans:
  assumes "vs MULTI_LINE_COMMENT" and "well_nested ps STAR"
      and "depth (Block ps) = dd" and "dd < 2 ^ 32"
  shows
   "1 \<le> dd \<and>
    scan vs \<lparr>rest = flatten (Block ps) @ R, advances = n, result_symbol = k\<rparr>
      = (True, \<lparr>rest = R, advances = n + length (flatten (Block ps)),
                result_symbol = MULTI_LINE_COMMENT\<rparr>) \<and>
    scan_multiline_comment \<lparr>rest = SLASH # STAR # S, advances = n, result_symbol = k\<rparr>
      = scan_multiline_comment_loop \<lparr>rest = S, advances = n + 2, result_symbol = k\<rparr> False 1 \<and>
    scan_multiline_comment_loop \<lparr>rest = SLASH # STAR # S, advances = n, result_symbol = k\<rparr> False d
      = scan_multiline_comment_loop
          \<lparr>rest = S, advances = n + 2, result_symbol = k\<rparr> False (d + 1) \<and>
    scan_multiline_comment_loop \<lparr>rest = STAR # SLASH # S, advances = n, result_symbol = k\<rparr> a d
      = (if d - 1 = 0
         then (True, \<lparr>rest = S, advances = n + 2, result_symbol = MULTI_LINE_COMMENT\<rparr>)
         else scan_multiline_comment_loop
                \<lparr>rest = S, advances = n + 2, result_symbol = k\<rparr> False (d - 1)) \<and>
    (scan_multiline_comment_iter lx a' d' = Inl (True, lx') \<longleftrightarrow>
       lookahead lx = SLASH \<and> a' \<and> d' - 1 = 0 \<and>
       lx' = (advance lx)\<lparr>result_symbol := MULTI_LINE_COMMENT\<rparr>)"
proof -
  let ?m = "length (concat (map flatten ps))"
  have dd: "1 \<le> dd"
    using assms(3) by auto
  have "scan vs \<lparr>rest = flatten (Block ps) @ R, advances = n, result_symbol = k\<rparr>
      = scan_multiline_comment_loop
          \<lparr>rest = concat (map flatten ps) @ STAR # SLASH # R, advances = n + 2,
            result_symbol = k\<rparr> False 1"
    using assms(1) by (simp add: scan_at_slash scan_multiline_comment_open)
  moreover obtain b where "scan_multiline_comment_loop
          \<lparr>rest = concat (map flatten ps) @ STAR # SLASH # R, advances = n + 2,
            result_symbol = k\<rparr> False 1
      = scan_multiline_comment_loop
          \<lparr>rest = STAR # SLASH # R, advances = n + 2 + ?m, result_symbol = k\<rparr> b 1"
    using comment_loop_skip_well_nested [OF assms(2), of 1 False "SLASH # R" "n + 2" k]
      assms(3,4)
    by auto
  moreover have "scan_multiline_comment_loop
          \<lparr>rest = STAR # SLASH # R, advances = n + 2 + ?m, result_symbol = k\<rparr> b 1
      = (True, \<lparr>rest = R, advances = n + length (flatten (Block ps)),
                result_symbol = MULTI_LINE_COMMENT\<rparr>)"
    by (simp add: comment_loop_close)
  ultimately have main: "scan vs \<lparr>rest = flatten (Block ps) @ R, advances = n, result_symbol = k\<rparr>
      = (True, \<lparr>rest = R, advances = n + length (flatten (Block ps)),
                result_symbol = MULTI_LINE_COMMENT\<rparr>)"
    by simp
  show ?thesis
    using dd main scan_multiline_comment_open [of S n k] comment_loop_open [of S n k d]
      comment_loop_close [of S n k a d] comment_iter_success [of lx a' d' lx']
    by blast
qed

theorem nested_comment_scans_witness:
  "(\<lambda>k. True) MULTI_LINE_COMMENT \<and>
   well_nested [Text STAR, Text 0x20, Text 0x61, Text STAR, Text 0x62, Text SLASH, Text 0x63,
                Text 0x20, Block [Text 0x20, Text 0x62, Text 0x20],
                Text 0x20, Text SLASH, Text 0x63, Text STAR] STAR \<and>
   depth (Block [Text STAR, Text 0x20, Text 0x61, Text STAR, Text 0x62, Text SLASH, Text 0x63,
                 Text 0x20, Block [Text 0x20, Text 0x62, Text 0x20],
                 Text 0x20, Text SLASH, Text 0x63, Text STAR]) = 2 \<and>
   (2 :: nat) < 2 ^ 32 \<and>
   scan (\<lambda>k. True)
     \<lparr>rest = [SLASH, STAR, STAR, 0x20, 0x61, STAR, 0x62, SLASH, 0x63, 0x20,
               SLASH, STAR, 0x20, 0x62, 0x20, STAR, SLASH,
               0x20, SLASH, 0x63, STAR, STAR, SLASH, 0x78],
       advances = 0, result_symbol = EOF\<rparr>
     = (True, \<lparr>rest = [0x78], advances = 23, result_symbol = MULTI_LINE_COMMENT\<rparr>) \<and>
   well_nested [Text 0x20, Text 0x61, Text STAR, Text 0x62, Text SLASH, Text 0x63, Text 0x20]
     STAR \<and>
   depth (Block [Text 0x20, Text 0x61, Text STAR, Text 0x62, Text SLASH, Text 0x63, Text 0x20])
     = 1 \<and>
   scan (\<lambda>k. True)
     \<lparr>rest = [SLASH, STAR, 0x20, 0x61, STAR, 0x62, SLASH, 0x63, 0x20, STAR, SLASH],
       advances = 0, result_symbol = EOF\<rparr>
     = (True, \<lparr>rest = [], advances = 11, result_symbol = MULTI_LINE_COMMENT\<rparr>)"
  using nested_comment_scans [of "\<lambda>k. True"
          "[Text STAR, Text 0x20, Text 0x61, Text STAR, Text 0x62, Text SLASH, Text 0x63,
            Text 0x20, Block [Text 0x20, Text 0x62, Text 0x20],
            Text 0x20, Text SLASH, Text 0x63, Text STAR]" 2 "[0x78]" 0 EOF]
    nested_comment_scans [of "\<lambda>k. True"
          "[Text 0x20, Text 0x61, Text STAR, Text 0x62, Text SLASH, Text 0x63, Text 0x20]"
          1 "[]" 0 EOF]
  by (simp add: first_code_point_def)

text \<open>
  With a 0 in the text of the comment the claim fails: the input \<open>/*\<close>, \<open>a\<close>, 0, \<open>*/\<close> is a
  well-nested comment of depth 1, and scan, with the comment kind valid, stops at the 0
  and fails, since the loop takes a lookahead of 0 for the end of the input.
\<close>

theorem nested_comment_nul_counterexample:
  "\<not> fst (scan ((=) MULTI_LINE_COMMENT)
            \<lparr>rest = flatten (Block [Text 0x61, Text NUL]), advances = 0,
              result_symbol = MULTI_LINE_COMMENT\<rparr>)"
  by (simp add: tree_sitter_kdl_external_scanner_scan_def scan_multiline_comment_def
        scan_multiline_comment_loop.simps scan_multiline_comment_iter_def
        lookahead_def advance_def)



section \<open>Multi-line raw strings\<close>

lemma multi_line_plain:
  assumes "c \<noteq> NUL" "c \<noteq> QUOTE" "\<not> is_newline c"
  shows "scan_raw_string_multi_line \<lparr>rest = c # R, advances = n, result_symbol = k\<rparr> h
           = scan_raw_string_multi_line \<lparr>rest = R, advances = Suc n, result_symbol = k\<rparr> h"
  using assms
  by (subst scan_raw_string_multi_line.simps)
     (simp add: scan_raw_string_multi_line_iter_def lookahead_def eof_def advance_def)

lemma multi_line_newline:
  assumes "is_newline c"
  shows "scan_raw_string_multi_line \<lparr>rest = c # R, advances = n, result_symbol = k\<rparr> h
           = scan_raw_string_multi_line
               (consume_newline \<lparr>rest = c # R, advances = n, result_symbol = k\<rparr>) h"
  using assms is_newline_not_NUL [OF assms] is_newline_not_QUOTE [OF assms]
  by (subst scan_raw_string_multi_line.simps)
     (simp add: scan_raw_string_multi_line_iter_def lookahead_def eof_def)

lemma multi_line_quote1:
  assumes "c \<noteq> QUOTE"
  shows "scan_raw_string_multi_line \<lparr>rest = QUOTE # c # R, advances = n, result_symbol = k\<rparr> h
           = scan_raw_string_multi_line \<lparr>rest = c # R, advances = n + 1, result_symbol = k\<rparr> h"
  using assms
  by (subst scan_raw_string_multi_line.simps)
     (simp add: scan_raw_string_multi_line_iter_def lookahead_def eof_def advance_def)

lemma multi_line_quote2:
  assumes "c \<noteq> QUOTE"
  shows "scan_raw_string_multi_line
           \<lparr>rest = QUOTE # QUOTE # c # R, advances = n, result_symbol = k\<rparr> h
           = scan_raw_string_multi_line \<lparr>rest = c # R, advances = n + 2, result_symbol = k\<rparr> h"
  using assms
  by (subst scan_raw_string_multi_line.simps)
     (simp add: scan_raw_string_multi_line_iter_def lookahead_def eof_def advance_def)

lemma multi_line_close:
  "scan_raw_string_multi_line
     \<lparr>rest = QUOTE # QUOTE # QUOTE # replicate (unat h) HASH @ S, advances = n,
       result_symbol = k\<rparr> h
   = (True, \<lparr>rest = S, advances = n + 3 + unat h, result_symbol = RAW_STRING\<rparr>)"
  by (subst scan_raw_string_multi_line.simps)
     (simp add: scan_raw_string_multi_line_iter_def lookahead_def eof_def advance_def
                try_consume_hashes_enough)

lemma multi_line_short_close:
  assumes "K < unat h" and "R = [] \<or> hd R \<noteq> HASH"
  shows "scan_raw_string_multi_line
           \<lparr>rest = QUOTE # QUOTE # QUOTE # replicate K HASH @ R, advances = n,
             result_symbol = k\<rparr> h
         = scan_raw_string_multi_line
             \<lparr>rest = R, advances = n + 3 + K, result_symbol = k\<rparr> h"
  by (subst scan_raw_string_multi_line.simps)
     (simp add: scan_raw_string_multi_line_iter_def lookahead_def eof_def advance_def
                try_consume_hashes_short [OF assms] numeral_3_eq_3)

lemma take_3_plus: "take (3 + N) (a # b # c # xs) = a # b # c # take N xs"
  by (simp add: numeral_3_eq_3)

lemma no_triple_close_suffix: "no_triple_close N (xs @ ys) \<Longrightarrow> no_triple_close N ys"
  by (induction xs) simp_all

lemma multi_line_body_suffix: "multi_line_body N (xs @ ys) \<Longrightarrow> multi_line_body N ys"
  by (cases "ys = []") (auto simp: multi_line_body_def dest: no_triple_close_suffix)

lemma multi_line_body_tl: "multi_line_body N (c # cs) \<Longrightarrow> multi_line_body N cs"
  using multi_line_body_suffix [of N "[c]" cs] by simp

lemma multi_line_skip_body:
  assumes "multi_line_body (unat h) B"
  shows "scan_raw_string_multi_line \<lparr>rest = B @ QUOTE # R, advances = n, result_symbol = k\<rparr> h
           = scan_raw_string_multi_line
               \<lparr>rest = QUOTE # R, advances = n + length B, result_symbol = k\<rparr> h"
  using assms
proof (induction B arbitrary: n rule: length_induct)
  case (1 B)
  show ?case
  proof (cases B)
    case Nil
    then show ?thesis by simp
  next
    case (Cons c B')
    have c0: "c \<noteq> NUL" using "1.prems" Cons by (auto simp: multi_line_body_def)
    have B': "multi_line_body (unat h) B'"
      using "1.prems" Cons by (auto dest: multi_line_body_tl)
    have next1: "scan_raw_string_multi_line
                   \<lparr>rest = B' @ QUOTE # R, advances = Suc n, result_symbol = k\<rparr> h
                 = scan_raw_string_multi_line
                     \<lparr>rest = QUOTE # R, advances = n + length B, result_symbol = k\<rparr> h"
      using "1.IH" B' Cons by simp
    show ?thesis
    proof (cases "c = QUOTE")
      case q: True
      then obtain c' B'' where B'': "B' = c' # B''"
        using "1.prems" Cons by (cases B') (auto simp: multi_line_body_def)
      show ?thesis
      proof (cases "c' = QUOTE")
        case False
        then show ?thesis
          using next1 by (simp add: Cons q B'' multi_line_quote1)
      next
        case q': True
        then obtain c'' B''' where B''': "B'' = c'' # B'''"
          using "1.prems" Cons q B'' by (cases B'') (auto simp: multi_line_body_def)
        have B''_ok: "multi_line_body (unat h) B''"
          using B' B'' by (auto dest: multi_line_body_tl)
        show ?thesis
        proof (cases "c'' = QUOTE")
          case False
          have "scan_raw_string_multi_line
                   \<lparr>rest = B'' @ QUOTE # R, advances = n + 2, result_symbol = k\<rparr> h
                 = scan_raw_string_multi_line
                     \<lparr>rest = QUOTE # R, advances = n + length B, result_symbol = k\<rparr> h"
            using "1.IH" Cons B'' B''_ok by simp
          then show ?thesis
            using False by (simp add: Cons q B'' q' B''' multi_line_quote2)
        next
          case q'': True
          obtain K B4 where split: "B''' = replicate K HASH @ B4" "B4 = [] \<or> hd B4 \<noteq> HASH"
            using hash_run_split [of B'''] by blast
          have "take (3 + unat h) B \<noteq> QUOTE # QUOTE # QUOTE # replicate (unat h) HASH"
            using "1.prems" Cons by (simp add: multi_line_body_def)
          then have K: "K < unat h"
            using split(1) Cons q B'' q' B''' q''
            by (cases "unat h \<le> K") (auto simp: min_def take_3_plus)
          have nh: "B4 @ QUOTE # R = [] \<or> hd (B4 @ QUOTE # R) \<noteq> HASH"
            using split(2) by (cases B4) auto
          have B4_ok: "multi_line_body (unat h) B4"
            using B''_ok B''' split(1) multi_line_body_suffix [of "unat h" "c'' # replicate K HASH" B4]
            by simp
          have "scan_raw_string_multi_line
                  \<lparr>rest = B @ QUOTE # R, advances = n, result_symbol = k\<rparr> h
                = scan_raw_string_multi_line
                    \<lparr>rest = B4 @ QUOTE # R, advances = n + 3 + K, result_symbol = k\<rparr> h"
            using multi_line_short_close [OF K nh, of n k]
            by (simp add: Cons q B'' q' B''' q'' split(1))
          also have "\<dots> = scan_raw_string_multi_line
                     \<lparr>rest = QUOTE # R, advances = n + 3 + K + length B4, result_symbol = k\<rparr> h"
            using "1.IH" B4_ok Cons B'' B''' split(1) by simp
          also have "n + 3 + K + length B4 = n + length B"
            using Cons B'' B''' split(1) by simp
          finally show ?thesis .
        qed
      qed
    next
      case nq: False
      show ?thesis
      proof (cases "is_newline c")
        case False
        then show ?thesis
          using next1 c0 nq by (simp add: Cons multi_line_plain)
      next
        case nl: True
        show ?thesis
        proof (cases "c = CR \<and> take 1 (B' @ QUOTE # R) = [LF]")
          case False
          then have "consume_newline \<lparr>rest = c # B' @ QUOTE # R, advances = n, result_symbol = k\<rparr>
                       = \<lparr>rest = B' @ QUOTE # R, advances = n + 1, result_symbol = k\<rparr>"
            using nl by (intro consume_newline_single) auto
          then show ?thesis
            using next1 nl by (simp add: Cons multi_line_newline)
        next
          case True
          then obtain B'' where B'': "B' = LF # B''"
            by (cases B') auto
          have "multi_line_body (unat h) B''"
            using B' B'' by (auto dest: multi_line_body_tl)
          then have "scan_raw_string_multi_line
                   \<lparr>rest = B'' @ QUOTE # R, advances = n + 2, result_symbol = k\<rparr> h
                 = scan_raw_string_multi_line
                     \<lparr>rest = QUOTE # R, advances = n + length B, result_symbol = k\<rparr> h"
            using "1.IH" Cons B'' by simp
          then show ?thesis
            using nl True by (simp add: Cons B'' multi_line_newline consume_newline_CRLF)
        qed
      qed
    qed
  qed
qed

lemma multi_line_iter_success:
  assumes "scan_raw_string_multi_line_iter lx h = Inl (True, lx')"
  shows "rest lx = QUOTE # QUOTE # QUOTE # replicate (unat h) HASH @ rest lx'"
proof -
  have q1: "lookahead lx = QUOTE"
    using assms by (auto simp: scan_raw_string_multi_line_iter_def split: if_splits)
  have q2: "lookahead (advance lx) = QUOTE"
    using assms q1 by (auto simp: scan_raw_string_multi_line_iter_def Let_def split: if_splits)
  have q3: "lookahead (advance (advance lx)) = QUOTE"
    using assms q1 q2
    by (auto simp: scan_raw_string_multi_line_iter_def Let_def split: if_splits)
  obtain lx1 where t: "try_consume_hashes (advance (advance (advance lx))) h = (True, lx1)"
      and lx': "lx' = lx1\<lparr>result_symbol := RAW_STRING\<rparr>"
    using assms q1 q2 q3
    by (auto simp: scan_raw_string_multi_line_iter_def Let_def
             split: if_splits prod.splits bool.splits)
  have "rest lx = QUOTE # rest (advance lx)"
    using q1 by (rule rest_lookahead_advance) simp
  moreover have "rest (advance lx) = QUOTE # rest (advance (advance lx))"
    using q2 by (rule rest_lookahead_advance) simp
  moreover have "rest (advance (advance lx)) = QUOTE # rest (advance (advance (advance lx)))"
    using q3 by (rule rest_lookahead_advance) simp
  ultimately show ?thesis
    using try_consume_hashes_success [OF t] lx' by simp
qed

lemma multi_line_success_closed:
  "scan_raw_string_multi_line lx h = (True, lx') \<Longrightarrow>
   \<exists>pre. rest lx = pre @ QUOTE # QUOTE # QUOTE # replicate (unat h) HASH @ rest lx'"
proof (induction lx h rule: scan_raw_string_multi_line.induct)
  case (1 lx h)
  show ?case
  proof (cases "scan_raw_string_multi_line_iter lx h")
    case (Inl r)
    then have "r = (True, lx')"
      using "1.prems" by (subst (asm) scan_raw_string_multi_line.simps) simp
    then have "rest lx = [] @ QUOTE # QUOTE # QUOTE # replicate (unat h) HASH @ rest lx'"
      using Inl multi_line_iter_success [of lx h lx'] by simp
    then show ?thesis by blast
  next
    case (Inr lx'')
    then have "scan_raw_string_multi_line lx'' h = (True, lx')"
      using "1.prems" by (subst (asm) scan_raw_string_multi_line.simps) simp
    then obtain pre where
      pre: "rest lx'' = pre @ QUOTE # QUOTE # QUOTE # replicate (unat h) HASH @ rest lx'"
      using "1.IH" [OF Inr] by blast
    have "forward lx lx''"
      using forward_multi_line_iter [of lx h] Inr by simp
    then have "rest lx = take (advances lx'' - advances lx) (rest lx) @ rest lx''"
      by (simp add: forward_def)
    then have "rest lx = (take (advances lx'' - advances lx) (rest lx) @ pre)
                 @ QUOTE # QUOTE # QUOTE # replicate (unat h) HASH @ rest lx'"
      using pre by simp
    then show ?thesis by blast
  qed
qed

lemma scan_raw_string_open_multi_line:
  assumes "1 \<le> M"
  shows "scan_raw_string
           \<lparr>rest = replicate M HASH @ QUOTE # QUOTE # QUOTE # S, advances = n, result_symbol = k\<rparr>
         = (if is_newline (lookahead \<lparr>rest = S, advances = n + M + 3, result_symbol = k\<rparr>)
            then scan_raw_string_multi_line
                   (consume_newline \<lparr>rest = S, advances = n + M + 3, result_symbol = k\<rparr>)
                   (of_nat M)
            else (False, \<lparr>rest = S, advances = n + M + 3, result_symbol = k\<rparr>))"
proof -
  obtain M' where M: "M = Suc M'"
    using assms(1) by (cases M) simp_all
  have "count_hashes \<lparr>rest = replicate M HASH @ QUOTE # QUOTE # QUOTE # S, advances = n,
                       result_symbol = k\<rparr> 0
          = (of_nat M, \<lparr>rest = QUOTE # QUOTE # QUOTE # S, advances = n + M, result_symbol = k\<rparr>)"
    using count_hashes_run [of "QUOTE # QUOTE # QUOTE # S" M n k 0] by simp
  then show ?thesis
    by (simp add: scan_raw_string_def M lookahead_def advance_def numeral_3_eq_3)
qed

lemma multi_line_after_opening_newline:
  assumes "multi_line_body (unat h) B" and "is_newline nl"
  shows "scan_raw_string_multi_line
           (consume_newline \<lparr>rest = nl # B @ QUOTE # T, advances = n, result_symbol = k\<rparr>) h
         = scan_raw_string_multi_line
             \<lparr>rest = QUOTE # T, advances = n + 1 + length B, result_symbol = k\<rparr> h"
proof (cases "nl = CR \<and> take 1 (B @ QUOTE # T) = [LF]")
  case False
  then have "consume_newline \<lparr>rest = nl # B @ QUOTE # T, advances = n, result_symbol = k\<rparr>
               = \<lparr>rest = B @ QUOTE # T, advances = n + 1, result_symbol = k\<rparr>"
    using assms(2) by (intro consume_newline_single) auto
  then show ?thesis
    using multi_line_skip_body [OF assms(1), of T "n + 1" k] by simp
next
  case True
  then obtain B' where B': "B = LF # B'"
    by (cases B) auto
  have "multi_line_body (unat h) B'"
    using assms(1) B' by (auto dest: multi_line_body_tl)
  from multi_line_skip_body [OF this, of T "n + 2" k] show ?thesis
    using True by (simp add: B' consume_newline_CRLF)
qed

text \<open>
  Claim C3, as the code has it. The hash count \<open>M\<close> is at least 1 (the entry point scans
  a raw string only at a lookahead of \<open>#\<close>) and below \<open>2 ^ 32\<close> (the counter is a 32-bit
  unsigned). For a body that has no 0 in it, does not end in a quote and holds no three
  quotes followed by \<open>M\<close> hashes, the input \<open>M\<close> hashes, three quotes, a newline, the
  body, three quotes, \<open>K\<close> hashes is recognized as one raw-string token that spans the
  whole input if and only if \<open>K = M\<close>; with at least \<open>M\<close> closing hashes the token ends
  after the first \<open>M\<close> of them, with fewer the scan fails at the end of the input.
  For every body: when the multi-line body scanner succeeds, what it has consumed ends
  with three quotes and exactly as many hashes as the opening had. A quote, or two
  quotes, followed by a code point that is not a quote are passed over and the loop goes
  on at that code point; three quotes and a run of fewer hashes than the opening had are
  passed over and the loop goes on after the run. The opener fails when the code point
  after the third quote is not a newline, and when the input ends there.
\<close>

theorem raw_string_multi_line_close:
  assumes "vs RAW_STRING" and "1 \<le> M" and "M < 2 ^ 32"
      and "multi_line_body M B" and "is_newline nl"
  shows
   "(fst (scan vs \<lparr>rest = replicate M HASH @ QUOTE # QUOTE # QUOTE # nl # B
                          @ QUOTE # QUOTE # QUOTE # replicate K HASH,
                    advances = n, result_symbol = k\<rparr>) \<and>
     rest (snd (scan vs \<lparr>rest = replicate M HASH @ QUOTE # QUOTE # QUOTE # nl # B
                          @ QUOTE # QUOTE # QUOTE # replicate K HASH,
                    advances = n, result_symbol = k\<rparr>)) = [] \<and>
     result_symbol (snd (scan vs \<lparr>rest = replicate M HASH @ QUOTE # QUOTE # QUOTE # nl # B
                          @ QUOTE # QUOTE # QUOTE # replicate K HASH,
                    advances = n, result_symbol = k\<rparr>)) = RAW_STRING
       \<longleftrightarrow> K = M) \<and>
    (M \<le> K2 \<longrightarrow>
       scan vs \<lparr>rest = replicate M HASH @ QUOTE # QUOTE # QUOTE # nl # B
                        @ QUOTE # QUOTE # QUOTE # replicate K2 HASH @ R',
                advances = n, result_symbol = k\<rparr>
         = (True, \<lparr>rest = replicate (K2 - M) HASH @ R',
                   advances = n + M + 4 + length B + 3 + M, result_symbol = RAW_STRING\<rparr>)) \<and>
    (K1 < M \<longrightarrow>
       scan vs \<lparr>rest = replicate M HASH @ QUOTE # QUOTE # QUOTE # nl # B
                        @ QUOTE # QUOTE # QUOTE # replicate K1 HASH,
                advances = n, result_symbol = k\<rparr>
         = (False, \<lparr>rest = [], advances = n + M + 4 + length B + 3 + K1, result_symbol = k\<rparr>)) \<and>
    (scan_raw_string_multi_line lx h = (True, lx') \<longrightarrow>
       (\<exists>pre. rest lx = pre @ QUOTE # QUOTE # QUOTE # replicate (unat h) HASH @ rest lx')) \<and>
    (c \<noteq> QUOTE \<longrightarrow>
       scan_raw_string_multi_line \<lparr>rest = QUOTE # c # S, advances = n, result_symbol = k\<rparr> h'
         = scan_raw_string_multi_line \<lparr>rest = c # S, advances = n + 1, result_symbol = k\<rparr> h' \<and>
       scan_raw_string_multi_line
           \<lparr>rest = QUOTE # QUOTE # c # S, advances = n, result_symbol = k\<rparr> h'
         = scan_raw_string_multi_line \<lparr>rest = c # S, advances = n + 2, result_symbol = k\<rparr> h') \<and>
    (K3 < unat h' \<and> (R = [] \<or> hd R \<noteq> HASH) \<longrightarrow>
       scan_raw_string_multi_line
           \<lparr>rest = QUOTE # QUOTE # QUOTE # replicate K3 HASH @ R, advances = n,
             result_symbol = k\<rparr> h'
         = scan_raw_string_multi_line
             \<lparr>rest = R, advances = n + 3 + K3, result_symbol = k\<rparr> h') \<and>
    (\<not> is_newline c' \<longrightarrow>
       scan vs \<lparr>rest = replicate M HASH @ QUOTE # QUOTE # QUOTE # c' # S',
                advances = n, result_symbol = k\<rparr>
         = (False, \<lparr>rest = c' # S', advances = n + M + 3, result_symbol = k\<rparr>)) \<and>
    scan vs \<lparr>rest = replicate M HASH @ [QUOTE, QUOTE, QUOTE], advances = n, result_symbol = k\<rparr>
      = (False, \<lparr>rest = [], advances = n + M + 3, result_symbol = k\<rparr>)"
proof -
  obtain M' where M: "M = Suc M'"
    using assms(2) by (cases M) simp_all
  have u: "unat (of_nat M :: 32 word) = M"
    using assms(3) by (simp add: unat_of_nat)
  have start: "scan vs \<lparr>rest = replicate M HASH @ QUOTE # QUOTE # QUOTE # T,
                         advances = n, result_symbol = k\<rparr>
      = scan_raw_string \<lparr>rest = replicate M HASH @ QUOTE # QUOTE # QUOTE # T,
                         advances = n, result_symbol = k\<rparr>" for T
    using assms(1) by (simp add: M scan_at_hash)
  have body: "scan vs \<lparr>rest = replicate M HASH @ QUOTE # QUOTE # QUOTE # nl # B @ QUOTE # T,
                        advances = n, result_symbol = k\<rparr>
      = scan_raw_string_multi_line
          \<lparr>rest = QUOTE # T, advances = n + M + 4 + length B, result_symbol = k\<rparr> (of_nat M)"
    for T
  proof -
    have step1: "scan vs \<lparr>rest = replicate M HASH @ QUOTE # QUOTE # QUOTE # nl # B @ QUOTE # T,
                        advances = n, result_symbol = k\<rparr>
      = scan_raw_string_multi_line
          (consume_newline \<lparr>rest = nl # B @ QUOTE # T, advances = n + M + 3,
                             result_symbol = k\<rparr>) (of_nat M)"
      using assms(5)
      by (simp add: start scan_raw_string_open_multi_line [OF assms(2)] lookahead_def)
    have step2: "scan_raw_string_multi_line
          (consume_newline \<lparr>rest = nl # B @ QUOTE # T, advances = n + M + 3,
                             result_symbol = k\<rparr>) (of_nat M)
      = scan_raw_string_multi_line
          \<lparr>rest = QUOTE # T, advances = n + M + 3 + 1 + length B, result_symbol = k\<rparr> (of_nat M)"
      using assms(4,5) by (intro multi_line_after_opening_newline) (simp_all add: u)
    have e: "n + M + 3 + 1 + length B = n + M + 4 + length B"
      by simp
    show ?thesis
      by (simp only: step1 step2 e)
  qed
  have long: "scan vs \<lparr>rest = replicate M HASH @ QUOTE # QUOTE # QUOTE # nl # B
                        @ QUOTE # QUOTE # QUOTE # replicate K HASH @ T,
                advances = n, result_symbol = k\<rparr>
         = (True, \<lparr>rest = replicate (K - M) HASH @ T,
                   advances = n + M + 4 + length B + 3 + M, result_symbol = RAW_STRING\<rparr>)"
    if "M \<le> K" for K T
  proof -
    have "replicate K HASH @ T = replicate M HASH @ replicate (K - M) HASH @ T"
      using that by (simp add: replicate_add [symmetric])
    then show ?thesis
      using body [of "QUOTE # QUOTE # replicate K HASH @ T"]
        multi_line_close [of "of_nat M" "replicate (K - M) HASH @ T" "n + M + 4 + length B" k]
      by (simp add: u)
  qed
  have fail: "scan vs \<lparr>rest = replicate M HASH @ QUOTE # QUOTE # QUOTE # nl # B
                        @ QUOTE # QUOTE # QUOTE # replicate K HASH,
                advances = n, result_symbol = k\<rparr>
         = (False, \<lparr>rest = [], advances = n + M + 4 + length B + 3 + K, result_symbol = k\<rparr>)"
    if "K < M" for K
    using body [of "QUOTE # QUOTE # replicate K HASH"] that
      multi_line_short_close [of K "of_nat M" "[]" "n + M + 4 + length B" k]
    by (simp add: u multi_line_NUL lookahead_def)
  let ?r = "scan vs \<lparr>rest = replicate M HASH @ QUOTE # QUOTE # QUOTE # nl # B
                          @ QUOTE # QUOTE # QUOTE # replicate K HASH,
                    advances = n, result_symbol = k\<rparr>"
  have iff: "(fst ?r \<and> rest (snd ?r) = [] \<and> result_symbol (snd ?r) = RAW_STRING) \<longleftrightarrow> K = M"
  proof (cases "K < M")
    case True
    then show ?thesis using fail by simp
  next
    case False
    then have "M \<le> K" by simp
    from long [OF this, of "[]"] False show ?thesis by auto
  qed
  have nonl: "scan vs \<lparr>rest = replicate M HASH @ QUOTE # QUOTE # QUOTE # c' # S',
                advances = n, result_symbol = k\<rparr>
         = (False, \<lparr>rest = c' # S', advances = n + M + 3, result_symbol = k\<rparr>)"
    if "\<not> is_newline c'"
    using that by (simp add: start scan_raw_string_open_multi_line [OF assms(2)] lookahead_def)
  have ended: "scan vs \<lparr>rest = replicate M HASH @ [QUOTE, QUOTE, QUOTE], advances = n,
                  result_symbol = k\<rparr>
      = (False, \<lparr>rest = [], advances = n + M + 3, result_symbol = k\<rparr>)"
    using start [of "[]"]
    by (simp add: scan_raw_string_open_multi_line [OF assms(2)] lookahead_def is_newline_def)
  show ?thesis
    using iff long [of K2 R'] fail [of K1] multi_line_success_closed [of lx h lx']
      multi_line_quote1 [of c S n k h'] multi_line_quote2 [of c S n k h']
      multi_line_short_close [of K3 h' R n k] nonl ended
    by blast
qed

theorem raw_string_multi_line_close_witness:
  "(\<lambda>k. True) RAW_STRING \<and> (1::nat) \<le> 2 \<and> (2::nat) < 2 ^ 32 \<and>
   multi_line_body 2 [0x61, QUOTE, QUOTE, 0x62, QUOTE, QUOTE, QUOTE, QUOTE, HASH, CR, LF] \<and>
   is_newline LF \<and>
   fst (scan (\<lambda>k. True)
     \<lparr>rest = [HASH, HASH, QUOTE, QUOTE, QUOTE, LF,
              0x61, QUOTE, QUOTE, 0x62, QUOTE, QUOTE, QUOTE, QUOTE, HASH, CR, LF,
              QUOTE, QUOTE, QUOTE, HASH, HASH], advances = 0, result_symbol = EOF\<rparr>) \<and>
   scan (\<lambda>k. True)
     \<lparr>rest = [HASH, HASH, QUOTE, QUOTE, QUOTE, LF,
              0x61, QUOTE, QUOTE, 0x62, QUOTE, QUOTE, QUOTE, QUOTE, HASH, CR, LF,
              QUOTE, QUOTE, QUOTE, HASH, HASH, HASH, 0x78], advances = 0, result_symbol = EOF\<rparr>
     = (True, \<lparr>rest = [HASH, 0x78], advances = 22, result_symbol = RAW_STRING\<rparr>) \<and>
   scan (\<lambda>k. True)
     \<lparr>rest = [HASH, HASH, QUOTE, QUOTE, QUOTE, LF,
              0x61, QUOTE, QUOTE, 0x62, QUOTE, QUOTE, QUOTE, QUOTE, HASH, CR, LF,
              QUOTE, QUOTE, QUOTE, HASH], advances = 0, result_symbol = EOF\<rparr>
     = (False, \<lparr>rest = [], advances = 21, result_symbol = EOF\<rparr>) \<and>
   \<not> is_newline 0x61 \<and>
   scan (\<lambda>k. True)
     \<lparr>rest = [HASH, HASH, QUOTE, QUOTE, QUOTE, 0x61, LF], advances = 0, result_symbol = EOF\<rparr>
     = (False, \<lparr>rest = [0x61, LF], advances = 5, result_symbol = EOF\<rparr>)"
  using raw_string_multi_line_close [of "\<lambda>k. True" 2
          "[0x61, QUOTE, QUOTE, 0x62, QUOTE, QUOTE, QUOTE, QUOTE, HASH, CR, LF]"
          LF 2 0 EOF 3 "[0x78]" 1
          "\<lparr>rest = [QUOTE, QUOTE, QUOTE, HASH], advances = 0, result_symbol = EOF\<rparr>" 1
          "\<lparr>rest = [], advances = 4, result_symbol = RAW_STRING\<rparr>"
          "0x61" "[]" 1 0 "[]" "0x61" "[LF]"]
  by (simp add: is_newline_def replicate_numeral_unfold multi_line_body_def take_3_plus)

text \<open>
  For every body the claim fails: with one hash and the body \<open>"\<close>, the input is closed by
  three quotes and one hash, and scan does not recognize it. The probe takes the quote of
  the body and the first two closing quotes for the closing delimiter, finds no hash
  after them, and the loop goes on behind them.
\<close>

theorem raw_string_multi_line_four_quotes_counterexample:
  "\<not> fst (scan ((=) RAW_STRING)
            \<lparr>rest = replicate 1 HASH @ [QUOTE, QUOTE, QUOTE, LF] @ [QUOTE]
                       @ [QUOTE, QUOTE, QUOTE] @ replicate 1 HASH,
              advances = 0, result_symbol = RAW_STRING\<rparr>)"
  by (simp add: tree_sitter_kdl_external_scanner_scan_def scan_raw_string_def
        count_hashes.simps try_consume_hashes_def try_consume_hashes_from.simps
        scan_raw_string_multi_line.simps scan_raw_string_multi_line_iter_def
        consume_newline_def is_newline_def lookahead_def advance_def eof_def)

end
